theory Spec2Isabelle
  imports Main "HOL-Library.Word" "HOL-Library.AList" "HOL-Library.Sublist"
begin

section \<open>Strings\<close>

text \<open>
  A JavaScript string is a sequence of UTF-16 code units. \<open>a.length\<close> and \<open>a[i]\<close>
  (used by \<open>editDistance\<close>) count and read code units; \<open>for (const ch of s)\<close> (used by
  the trie walks) yields one string per code point, joining a high surrogate with the low
  surrogate that follows it.
\<close>

type_synonym jsstring = "16 word list"

definition isHighSurrogate :: "16 word \<Rightarrow> bool" where
  "isHighSurrogate u \<longleftrightarrow> 0xD800 \<le> u \<and> u \<le> 0xDBFF"

definition isLowSurrogate :: "16 word \<Rightarrow> bool" where
  "isLowSurrogate u \<longleftrightarrow> 0xDC00 \<le> u \<and> u \<le> 0xDFFF"

text \<open>The string iterator: the keys the trie is indexed by.\<close>

fun codePoints :: "jsstring \<Rightarrow> jsstring list" where
  "codePoints [] = []"
| "codePoints [u] = [[u]]"
| "codePoints (u # v # s) =
     (if isHighSurrogate u \<and> isLowSurrogate v then [u, v] # codePoints s
      else [u] # codePoints (v # s))"

text \<open>An ASCII literal as a JavaScript string.\<close>

definition str :: "string \<Rightarrow> jsstring" where
  "str s = map (\<lambda>c. of_nat (of_char c)) s"

text \<open>
  \<open>String.prototype.toLowerCase\<close> and \<open>String.prototype.localeCompare\<close> are built-ins
  of the host; every operation below takes them as the parameters \<open>toLowerCase\<close> and
  \<open>localeCompare\<close>. The two functions that follow are what the built-ins compute on
  strings of ASCII letters, and instantiate the parameters on concrete inputs.
\<close>

definition asciiLower :: "jsstring \<Rightarrow> jsstring" where
  "asciiLower s = map (\<lambda>u. if 0x41 \<le> u \<and> u \<le> 0x5A then u + 0x20 else u) s"

fun codeUnitCompare :: "jsstring \<Rightarrow> jsstring \<Rightarrow> int" where
  "codeUnitCompare [] [] = 0"
| "codeUnitCompare [] (y # ys) = - 1"
| "codeUnitCompare (x # xs) [] = 1"
| "codeUnitCompare (x # xs) (y # ys) =
     (if x < y then - 1 else if y < x then 1 else codeUnitCompare xs ys)"

section \<open>Errors\<close>

text \<open>
  \<open>TypeError\<close>: a property read on \<open>undefined\<close>. \<open>RangeError\<close>: a call for which the host's
  call stack has no room left. These are the exceptions the engine's code can raise.
  \<open>IndexOutOfRange\<close>: an index outside an array or a string; JavaScript reads \<open>undefined\<close>
  there (and grows an array on a write) without throwing. The model reports it as an error
  all the same, so that a run without error has made every access in range.
\<close>

datatype error = TypeError | IndexOutOfRange | RangeError

definition bindE :: "error + 'a \<Rightarrow> ('a \<Rightarrow> error + 'b) \<Rightarrow> error + 'b" where
  "bindE r f = (case r of Inl e \<Rightarrow> Inl e | Inr x \<Rightarrow> f x)"

section \<open>The trie\<close>

text \<open>
  \<open>class TrieNode\<close>: \<open>children\<close> is a \<open>Map\<close>, which iterates in the order in which its
  keys were first set, so it is an association list with distinct keys;
  \<open>AList.update\<close> is \<open>Map.prototype.set\<close> (a new key goes last, an old one keeps its place).
\<close>

datatype TrieNode =
  TrieNode (children: "(jsstring \<times> TrieNode) list") (isEndOfWord: bool) (definition': jsstring)

definition newTrieNode :: TrieNode where
  "newTrieNode = TrieNode [] False []"

record WordDictionary =
  root :: TrieNode
  wordList :: "jsstring list"
  wordsSet :: "jsstring set"

definition newWordDictionary :: WordDictionary where
  "newWordDictionary = \<lparr>root = newTrieNode, wordList = [], wordsSet = {}\<rparr>"

subsection \<open>insertWord\<close>

text \<open>
  The update branch (lines 25 to 27): \<open>cur = cur.children.get(ch)\<close> for every character,
  with no check for a missing child. When a child is missing, \<open>cur\<close> becomes \<open>undefined\<close>:
  the next iteration then throws on \<open>cur.children\<close>, and when there is no next iteration
  \<open>if (cur)\<close> skips the assignment. The node reached gets the new definition
  (\<open>definition || cur.definition\<close> is \<open>definition\<close>, which is non-empty here).
\<close>

fun updateDefinition :: "jsstring list \<Rightarrow> jsstring \<Rightarrow> TrieNode \<Rightarrow> error + TrieNode" where
  "updateDefinition [] defn cur = Inr (TrieNode (children cur) (isEndOfWord cur) defn)"
| "updateDefinition (ch # rest) defn cur =
     (case map_of (children cur) ch of
        None \<Rightarrow> (if rest = [] then Inr cur else Inl TypeError)
      | Some child \<Rightarrow>
          bindE (updateDefinition rest defn child)
            (\<lambda>child'. Inr (TrieNode (AList.update ch child' (children cur))
                                (isEndOfWord cur) (definition' cur))))"

text \<open>
  The normal insert (lines 33 to 39): walk the path, creating the missing nodes, then mark
  the last node. The nodes are mutated in place; here each node on the path is rebuilt
  with its child replaced at the child's position.
\<close>

fun insertPath :: "jsstring list \<Rightarrow> jsstring \<Rightarrow> TrieNode \<Rightarrow> TrieNode" where
  "insertPath [] defn current = TrieNode (children current) True defn"
| "insertPath (char # rest) defn current =
     (let child = (case map_of (children current) char of
                     None \<Rightarrow> newTrieNode
                   | Some c \<Rightarrow> c)
      in TrieNode (AList.update char (insertPath rest defn child) (children current))
           (isEndOfWord current) (definition' current))"

definition insertWord ::
  "(jsstring \<Rightarrow> jsstring) \<Rightarrow> WordDictionary \<Rightarrow> jsstring \<Rightarrow> jsstring \<Rightarrow> error + WordDictionary" where
  "insertWord toLowerCase d word defn =
     (let lowerWord = toLowerCase word in
      if lowerWord \<in> wordsSet d then
        (if defn \<noteq> [] then
           bindE (updateDefinition (codePoints lowerWord) defn (root d))
             (\<lambda>r. Inr (d\<lparr>root := r\<rparr>))
         else Inr d)
      else
        Inr \<lparr>root = insertPath (codePoints lowerWord) defn (root d),
             wordList = wordList d @ [lowerWord],
             wordsSet = insert lowerWord (wordsSet d)\<rparr>)"

text \<open>A sequence of \<open>insertWord\<close> calls, as the loaders make them; it stops at the first throw.\<close>

fun insertAll ::
  "(jsstring \<Rightarrow> jsstring) \<Rightarrow> WordDictionary \<Rightarrow> (jsstring \<times> jsstring) list \<Rightarrow> error + WordDictionary" where
  "insertAll toLowerCase d [] = Inr d"
| "insertAll toLowerCase d ((word, defn) # rest) =
     bindE (insertWord toLowerCase d word defn) (\<lambda>d'. insertAll toLowerCase d' rest)"

subsection \<open>searchWord\<close>

record SearchResult =
  found :: bool
  resultDefinition :: jsstring

fun searchFrom :: "jsstring list \<Rightarrow> TrieNode \<Rightarrow> SearchResult" where
  "searchFrom [] current = \<lparr>found = isEndOfWord current, resultDefinition = definition' current\<rparr>"
| "searchFrom (char # rest) current =
     (case map_of (children current) char of
        None \<Rightarrow> \<lparr>found = False, resultDefinition = []\<rparr>
      | Some child \<Rightarrow> searchFrom rest child)"

definition searchWord :: "(jsstring \<Rightarrow> jsstring) \<Rightarrow> WordDictionary \<Rightarrow> jsstring \<Rightarrow> SearchResult" where
  "searchWord toLowerCase d word = searchFrom (codePoints (toLowerCase word)) (root d)"

subsection \<open>getAutoSuggestions\<close>

text \<open>
  The bounds \<open>maxSuggestions\<close> and \<open>maxDistance\<close> are non-negative integers, as the
  callers pass them. The walk along the prefix (lines 59 to 62) is \<open>findNode\<close>; \<open>None\<close> is
  the early \<open>return []\<close>.
\<close>

fun findNode :: "jsstring list \<Rightarrow> TrieNode \<Rightarrow> TrieNode option" where
  "findNode [] current = Some current"
| "findNode (char # rest) current =
     (case map_of (children current) char of
        None \<Rightarrow> None
      | Some child \<Rightarrow> findNode rest child)"

text \<open>
  \<open>#dfs\<close> pushes onto the shared array \<open>suggestions\<close>; the model passes the array in and
  returns it. \<open>dfsChildren\<close> is the \<open>for\<close> loop over \<open>node.children\<close>, in the order of
  the \<open>Map\<close>.
\<close>

fun dfs :: "TrieNode \<Rightarrow> jsstring \<Rightarrow> jsstring list \<Rightarrow> nat \<Rightarrow> jsstring list"
  and dfsChildren :: "(jsstring \<times> TrieNode) list \<Rightarrow> jsstring \<Rightarrow> jsstring list \<Rightarrow> nat \<Rightarrow> jsstring list" where
  "dfs (TrieNode nodeChildren nodeIsEndOfWord nodeDefinition) prefix' suggestions maxSuggestions =
     (if length suggestions \<ge> maxSuggestions then suggestions
      else dfsChildren nodeChildren prefix'
             (if nodeIsEndOfWord then suggestions @ [prefix'] else suggestions) maxSuggestions)"
| "dfsChildren [] prefix' suggestions maxSuggestions = suggestions"
| "dfsChildren ((char, childNode) # rest) prefix' suggestions maxSuggestions =
     dfsChildren rest prefix' (dfs childNode (prefix' @ char) suggestions maxSuggestions) maxSuggestions"

text \<open>
  \<open>new Set(xs)\<close> adds the elements one by one and keeps the order of first insertion;
  \<open>Array.from\<close> reads it back in that order. The first argument is the set so far.
\<close>

fun newSet :: "'a list \<Rightarrow> 'a list \<Rightarrow> 'a list" where
  "newSet seen [] = seen"
| "newSet seen (x # xs) = newSet (if x \<in> set seen then seen else seen @ [x]) xs"

definition getAutoSuggestions ::
  "(jsstring \<Rightarrow> jsstring) \<Rightarrow> WordDictionary \<Rightarrow> jsstring \<Rightarrow> nat \<Rightarrow> jsstring list" where
  "getAutoSuggestions toLowerCase d prefix' maxSuggestions =
     (let lowerPrefix = toLowerCase prefix' in
      case findNode (codePoints lowerPrefix) (root d) of
        None \<Rightarrow> []
      | Some current \<Rightarrow>
          (let suggestions = dfs current lowerPrefix [] (maxSuggestions * 3);
               unique = newSet [] suggestions
           in take maxSuggestions unique))"

subsection \<open>The throws of searchWord and getAutoSuggestions\<close>

text \<open>
  \<open>searchFrom\<close>, \<open>findNode\<close> and \<open>dfs\<close> above give what the operations compute. The
  definitions of this subsection follow the same statements and keep what can throw in
  them. \<open>Map.prototype.has\<close> and \<open>Map.prototype.get\<close> are two calls; \<open>get\<close> returns
  \<open>undefined\<close> (\<open>None\<close>) for a key that is not there, and the next read of
  \<open>current.children\<close> or \<open>current.isEndOfWord\<close> then throws.
\<close>

definition mapHas :: "(jsstring \<times> TrieNode) list \<Rightarrow> jsstring \<Rightarrow> bool" where
  "mapHas m k \<longleftrightarrow> k \<in> set (map fst m)"

definition mapGet :: "(jsstring \<times> TrieNode) list \<Rightarrow> jsstring \<Rightarrow> TrieNode option" where
  "mapGet m k = map_of m k"

text \<open>\<open>searchWord\<close>, lines 45 to 53.\<close>

fun searchFromE :: "jsstring list \<Rightarrow> TrieNode \<Rightarrow> error + SearchResult" where
  "searchFromE [] current =
     Inr \<lparr>found = isEndOfWord current, resultDefinition = definition' current\<rparr>"
| "searchFromE (char # rest) current =
     (if \<not> mapHas (children current) char then Inr \<lparr>found = False, resultDefinition = []\<rparr>
      else case mapGet (children current) char of
             None \<Rightarrow> Inl TypeError
           | Some child \<Rightarrow> searchFromE rest child)"

definition searchWordE :: "(jsstring \<Rightarrow> jsstring) \<Rightarrow> WordDictionary \<Rightarrow> jsstring \<Rightarrow> error + SearchResult" where
  "searchWordE toLowerCase d word = searchFromE (codePoints (toLowerCase word)) (root d)"

text \<open>The walk of \<open>getAutoSuggestions\<close> along the prefix, lines 59 to 62.\<close>

fun findNodeE :: "jsstring list \<Rightarrow> TrieNode \<Rightarrow> error + TrieNode option" where
  "findNodeE [] current = Inr (Some current)"
| "findNodeE (char # rest) current =
     (if \<not> mapHas (children current) char then Inr None
      else case mapGet (children current) char of
             None \<Rightarrow> Inl TypeError
           | Some child \<Rightarrow> findNodeE rest child)"

text \<open>
  \<open>#dfs\<close> calls itself once for every level of the trie below the node it starts from,
  however few suggestions are asked for: the cap ends a call only when the array is full.
  Each activation takes a frame of the host's call stack, and the call that finds no room
  throws. \<open>stack\<close> is the number of nested activations of \<open>#dfs\<close> for which the call
  stack has room when \<open>getAutoSuggestions\<close> makes the first call; it is a parameter of the
  host. Nothing catches the exception, so it ends the loops and \<open>getAutoSuggestions\<close>.
\<close>

fun dfsE :: "nat \<Rightarrow> TrieNode \<Rightarrow> jsstring \<Rightarrow> jsstring list \<Rightarrow> nat \<Rightarrow> error + jsstring list"
  and dfsChildrenE ::
    "nat \<Rightarrow> (jsstring \<times> TrieNode) list \<Rightarrow> jsstring \<Rightarrow> jsstring list \<Rightarrow> nat \<Rightarrow> error + jsstring list" where
  "dfsE 0 node prefix' suggestions maxSuggestions = Inl RangeError"
| "dfsE (Suc stack) (TrieNode nodeChildren nodeIsEndOfWord nodeDefinition) prefix' suggestions
       maxSuggestions =
     (if length suggestions \<ge> maxSuggestions then Inr suggestions
      else dfsChildrenE stack nodeChildren prefix'
             (if nodeIsEndOfWord then suggestions @ [prefix'] else suggestions) maxSuggestions)"
| "dfsChildrenE stack [] prefix' suggestions maxSuggestions = Inr suggestions"
| "dfsChildrenE stack ((char, childNode) # rest) prefix' suggestions maxSuggestions =
     bindE (dfsE stack childNode (prefix' @ char) suggestions maxSuggestions)
       (\<lambda>suggestions'. dfsChildrenE stack rest prefix' suggestions' maxSuggestions)"

definition getAutoSuggestionsE ::
  "nat \<Rightarrow> (jsstring \<Rightarrow> jsstring) \<Rightarrow> WordDictionary \<Rightarrow> jsstring \<Rightarrow> nat \<Rightarrow> error + jsstring list" where
  "getAutoSuggestionsE stack toLowerCase d prefix' maxSuggestions =
     (let lowerPrefix = toLowerCase prefix' in
      bindE (findNodeE (codePoints lowerPrefix) (root d)) (\<lambda>reached.
        case reached of
          None \<Rightarrow> Inr []
        | Some current \<Rightarrow>
            bindE (dfsE stack current lowerPrefix [] (maxSuggestions * 3)) (\<lambda>suggestions.
              Inr (take maxSuggestions (newSet [] suggestions)))))"

subsection \<open>editDistance\<close>

text \<open>
  The table \<open>dp\<close> is an array of rows. Reading or writing \<open>dp[i][j]\<close> with \<open>i\<close> out of
  range throws (\<open>dp[i]\<close> is \<open>undefined\<close>); with \<open>j\<close> out of range it reads \<open>undefined\<close>
  or grows the row.
\<close>

type_synonym table = "nat list list"

definition newTable :: "nat \<Rightarrow> nat \<Rightarrow> table" where
  "newTable rows cols = replicate rows (replicate cols 0)"

definition getCell :: "table \<Rightarrow> nat \<Rightarrow> nat \<Rightarrow> error + nat" where
  "getCell dp i j =
     (if i < length dp then
        (if j < length (dp ! i) then Inr (dp ! i ! j) else Inl IndexOutOfRange)
      else Inl TypeError)"

definition setCell :: "table \<Rightarrow> nat \<Rightarrow> nat \<Rightarrow> nat \<Rightarrow> error + table" where
  "setCell dp i j v =
     (if i < length dp then
        (if j < length (dp ! i) then Inr (dp[i := (dp ! i)[j := v]]) else Inl IndexOutOfRange)
      else Inl TypeError)"

definition charAt :: "'a list \<Rightarrow> nat \<Rightarrow> error + 'a" where
  "charAt a i = (if i < length a then Inr (a ! i) else Inl IndexOutOfRange)"

text \<open>A \<open>for\<close> loop over the given indices, threading the state; a throw ends it.\<close>

fun forLoop :: "nat list \<Rightarrow> (nat \<Rightarrow> 's \<Rightarrow> error + 's) \<Rightarrow> 's \<Rightarrow> error + 's" where
  "forLoop [] body s = Inr s"
| "forLoop (i # is) body s = bindE (body i s) (forLoop is body)"

text \<open>The body of the inner loop (lines 84 to 86).\<close>

definition fillCell :: "'a list \<Rightarrow> 'a list \<Rightarrow> nat \<Rightarrow> nat \<Rightarrow> table \<Rightarrow> error + table" where
  "fillCell a b i j dp =
     bindE (charAt a (i - 1)) (\<lambda>x.
     bindE (charAt b (j - 1)) (\<lambda>y.
       if x = y then
         bindE (getCell dp (i - 1) (j - 1)) (\<lambda>v. setCell dp i j v)
       else
         bindE (getCell dp (i - 1) j) (\<lambda>up.
         bindE (getCell dp i (j - 1)) (\<lambda>left.
         bindE (getCell dp (i - 1) (j - 1)) (\<lambda>diag.
           setCell dp i j (1 + min up (min left diag)))))))"

definition editDistance :: "'a list \<Rightarrow> 'a list \<Rightarrow> error + nat" where
  "editDistance a b =
     (let m = length a; n = length b in
      bindE (forLoop [0..<m + 1] (\<lambda>i dp. setCell dp i 0 i) (newTable (m + 1) (n + 1))) (\<lambda>dp.
      bindE (forLoop [0..<n + 1] (\<lambda>j dp. setCell dp 0 j j) dp) (\<lambda>dp.
      bindE (forLoop [1..<m + 1] (\<lambda>i. forLoop [1..<n + 1] (\<lambda>j. fillCell a b i j)) dp) (\<lambda>dp.
      getCell dp m n))))"

subsection \<open>getSpellingCorrections\<close>

record Candidate =
  word :: jsstring
  distance :: nat

text \<open>The scan of \<open>wordList\<close> (lines 96 to 101).\<close>

fun collectCandidates ::
  "jsstring \<Rightarrow> nat \<Rightarrow> jsstring list \<Rightarrow> Candidate list \<Rightarrow> error + Candidate list" where
  "collectCandidates lowerWord maxDistance [] candidates = Inr candidates"
| "collectCandidates lowerWord maxDistance (dictWord # rest) candidates =
     bindE (editDistance lowerWord dictWord) (\<lambda>dist.
       collectCandidates lowerWord maxDistance rest
         (if dist > 0 \<and> dist \<le> maxDistance
          then candidates @ [\<lparr>word = dictWord, distance = dist\<rparr>]
          else candidates))"

text \<open>
  The comparator of line 104: \<open>a.distance - b.distance || a.word.localeCompare(b.word)\<close>.
\<close>

definition compareCandidates ::
  "(jsstring \<Rightarrow> jsstring \<Rightarrow> int) \<Rightarrow> Candidate \<Rightarrow> Candidate \<Rightarrow> int" where
  "compareCandidates localeCompare a b =
     (let diff = int (distance a) - int (distance b)
      in if diff \<noteq> 0 then diff else localeCompare (word a) (word b))"

text \<open>
  \<open>Array.prototype.sort\<close> is stable: elements the comparator does not separate keep their
  order. With a comparator that is a total preorder, its result is the one a stable
  insertion sort computes.
\<close>

fun insertSorted :: "('a \<Rightarrow> 'a \<Rightarrow> int) \<Rightarrow> 'a \<Rightarrow> 'a list \<Rightarrow> 'a list" where
  "insertSorted cmp x [] = [x]"
| "insertSorted cmp x (y # ys) =
     (if cmp x y \<le> 0 then x # y # ys else y # insertSorted cmp x ys)"

definition arraySort :: "('a \<Rightarrow> 'a \<Rightarrow> int) \<Rightarrow> 'a list \<Rightarrow> 'a list" where
  "arraySort cmp xs = foldr (insertSorted cmp) xs []"

text \<open>The loop of lines 108 to 114, with its \<open>break\<close>.\<close>

fun keepFirst :: "nat \<Rightarrow> Candidate list \<Rightarrow> jsstring set \<Rightarrow> Candidate list \<Rightarrow> Candidate list" where
  "keepFirst maxSuggestions [] seen unique = unique"
| "keepFirst maxSuggestions (c # cs) seen unique =
     (if word c \<notin> seen then
        (if length (unique @ [c]) \<ge> maxSuggestions then unique @ [c]
         else keepFirst maxSuggestions cs (insert (word c) seen) (unique @ [c]))
      else keepFirst maxSuggestions cs seen unique)"

definition getSpellingCorrections ::
  "(jsstring \<Rightarrow> jsstring) \<Rightarrow> (jsstring \<Rightarrow> jsstring \<Rightarrow> int) \<Rightarrow> WordDictionary \<Rightarrow>
     jsstring \<Rightarrow> nat \<Rightarrow> nat \<Rightarrow> error + jsstring list" where
  "getSpellingCorrections toLowerCase localeCompare d word' maxDistance maxSuggestions =
     (let lowerWord = toLowerCase word' in
      bindE (collectCandidates lowerWord maxDistance (wordList d) []) (\<lambda>candidates.
        Inr (map word
          (keepFirst maxSuggestions (arraySort (compareCandidates localeCompare) candidates) {} []))))"

section \<open>Auxiliary definitions for the proofs\<close>

subsection \<open>The recurrence of the edit distance table\<close>

text \<open>
  \<open>lev a b i j\<close> is the value the specification gives \<open>dp[i][j]\<close>: \<open>dp[i][0] = i\<close>,
  \<open>dp[0][j] = j\<close>, and the transition on the characters \<open>a[i-1]\<close> and \<open>b[j-1]\<close>.
  \<open>tableOK a b P dp\<close>: the table has its \<open>(|a|+1) \<times> (|b|+1)\<close> shape and holds the
  recurrence's value in every cell that \<open>P\<close> selects.
\<close>

fun lev :: "'a list \<Rightarrow> 'a list \<Rightarrow> nat \<Rightarrow> nat \<Rightarrow> nat" where
  "lev a b 0 j = j"
| "lev a b (Suc i) 0 = Suc i"
| "lev a b (Suc i) (Suc j) =
     (if a ! i = b ! j then lev a b i j
      else 1 + min (lev a b i (Suc j)) (min (lev a b (Suc i) j) (lev a b i j)))"

definition tableOK :: "'a list \<Rightarrow> 'a list \<Rightarrow> (nat \<Rightarrow> nat \<Rightarrow> bool) \<Rightarrow> table \<Rightarrow> bool" where
  "tableOK a b P dp \<longleftrightarrow>
     length dp = length a + 1 \<and>
     (\<forall>i \<le> length a. length (dp ! i) = length b + 1) \<and>
     (\<forall>i \<le> length a. \<forall>j \<le> length b. P i j \<longrightarrow> dp ! i ! j = lev a b i j)"

subsection \<open>Well-formed tries, their paths and their shape\<close>

text \<open>
  \<open>wfNode\<close>: the keys of every \<open>children\<close> map are distinct. \<open>allPaths\<close>: the key
  sequences that lead from a node to a terminal node, in the order in which \<open>#dfs\<close> meets
  them. \<open>shape\<close>: the node with every definition erased. \<open>trieOf ws\<close>: the trie that
  inserting the words \<open>ws\<close> in this order, without definitions, builds.
\<close>

fun wfNode :: "TrieNode \<Rightarrow> bool" and wfChildren :: "(jsstring \<times> TrieNode) list \<Rightarrow> bool" where
  "wfNode (TrieNode cs e d) \<longleftrightarrow> distinct (map fst cs) \<and> wfChildren cs"
| "wfChildren [] \<longleftrightarrow> True"
| "wfChildren ((ch, c) # rest) \<longleftrightarrow> wfNode c \<and> wfChildren rest"

fun allPaths :: "TrieNode \<Rightarrow> jsstring list list"
  and childPaths :: "(jsstring \<times> TrieNode) list \<Rightarrow> jsstring list list" where
  "allPaths (TrieNode cs e d) = (if e then [[]] else []) @ childPaths cs"
| "childPaths [] = []"
| "childPaths ((ch, c) # rest) = map ((#) ch) (allPaths c) @ childPaths rest"

fun shape :: "TrieNode \<Rightarrow> TrieNode"
  and shapeChildren :: "(jsstring \<times> TrieNode) list \<Rightarrow> (jsstring \<times> TrieNode) list" where
  "shape (TrieNode cs e d) = TrieNode (shapeChildren cs) e []"
| "shapeChildren [] = []"
| "shapeChildren ((ch, c) # rest) = (ch, shape c) # shapeChildren rest"

definition trieOf :: "jsstring list \<Rightarrow> TrieNode" where
  "trieOf ws = foldl (\<lambda>t w. insertPath (codePoints w) [] t) newTrieNode ws"

text \<open>
  \<open>height\<close>: the number of nodes on the longest path from a node downwards, which is the
  number of nested activations that \<open>#dfs\<close> can need from that node.
\<close>

fun height :: "TrieNode \<Rightarrow> nat" and heightChildren :: "(jsstring \<times> TrieNode) list \<Rightarrow> nat" where
  "height (TrieNode cs e d) = Suc (heightChildren cs)"
| "heightChildren [] = 0"
| "heightChildren ((ch, c) # rest) = max (height c) (heightChildren rest)"

subsection \<open>The invariant of the dictionary\<close>

text \<open>
  \<open>dictInv\<close>: the trie is well formed, \<open>wordList\<close> lists the elements of \<open>wordsSet\<close> once
  each, the terminal paths of the trie are the character sequences of the words of
  \<open>wordsSet\<close>, and the shape of the trie is the one \<open>wordList\<close> determines.
\<close>

definition dictInv :: "WordDictionary \<Rightarrow> bool" where
  "dictInv d \<longleftrightarrow>
     wfNode (root d) \<and> set (wordList d) = wordsSet d \<and> distinct (wordList d) \<and>
     (\<forall>ks. found (searchFrom ks (root d)) \<longleftrightarrow> (\<exists>w \<in> wordsSet d. ks = codePoints w)) \<and>
     shape (root d) = trieOf (wordList d)"

subsection \<open>The update semantics of the specification\<close>

text \<open>
  The specification's \<open>insert\<close>, on a map from normalized words to definitions: a new
  word gets the definition given (possibly empty); a word already present gets a new
  definition only when the one given is non-empty. \<open>expectedDefinitions\<close> is the map after
  a sequence of calls; \<open>agrees\<close> relates a dictionary to such a map.
\<close>

definition updateSemantics ::
  "(jsstring \<Rightarrow> jsstring) \<Rightarrow> (jsstring \<rightharpoonup> jsstring) \<Rightarrow> jsstring \<times> jsstring \<Rightarrow> (jsstring \<rightharpoonup> jsstring)" where
  "updateSemantics toLowerCase m p =
     (let w = toLowerCase (fst p); defn = snd p in
      case m w of
        None \<Rightarrow> m(w \<mapsto> defn)
      | Some old \<Rightarrow> if defn \<noteq> [] then m(w \<mapsto> defn) else m)"

definition expectedDefinitions ::
  "(jsstring \<Rightarrow> jsstring) \<Rightarrow> (jsstring \<times> jsstring) list \<Rightarrow> (jsstring \<rightharpoonup> jsstring)" where
  "expectedDefinitions toLowerCase ops = foldl (updateSemantics toLowerCase) Map.empty ops"

definition agrees :: "WordDictionary \<Rightarrow> (jsstring \<rightharpoonup> jsstring) \<Rightarrow> bool" where
  "agrees d m \<longleftrightarrow>
     dom m = wordsSet d \<and>
     (\<forall>w x. m w = Some x \<longrightarrow>
        searchFrom (codePoints w) (root d) = \<lparr>found = True, resultDefinition = x\<rparr>)"

subsection \<open>Scenarios\<close>

text \<open>
  \<open>dictionaryOf\<close>: the dictionary that a sequence of \<open>insertWord\<close> calls builds from a
  fresh one (no call throws, by \<open>insertAll_dictionaryOf\<close> below). \<open>scenarioA\<close>: the
  vocabulary of the specification's end-to-end scenarios.
\<close>

definition dictionaryOf :: "(jsstring \<Rightarrow> jsstring) \<Rightarrow> (jsstring \<times> jsstring) list \<Rightarrow> WordDictionary" where
  "dictionaryOf toLowerCase ops =
     (case insertAll toLowerCase newWordDictionary ops of
        Inr d \<Rightarrow> d
      | Inl e \<Rightarrow> newWordDictionary)"

definition scenarioA :: "(jsstring \<times> jsstring) list" where
  "scenarioA = [(str ''apple'', str ''a fruit''), (str ''apply'', str ''to request''),
                (str ''app'', str ''a program'')]"

section \<open>The edit distance\<close>

lemma bindE_Inr [simp]: "bindE (Inr x) f = f x"
  by (simp add: bindE_def)

lemma bindE_Inl [simp]: "bindE (Inl e) f = Inl e"
  by (simp add: bindE_def)

lemma lev_0_right [simp]: "lev a b i 0 = i"
  by (cases i) simp_all

lemma lev_sym: "lev a b i j = lev b a j i"
proof (induction a b i j rule: lev.induct)
  case (3 a b i j)
  then show ?case by (auto simp: min.commute min.left_commute)
qed simp_all

lemma lev_same: "lev a a i i = 0"
  by (induction i) simp_all

lemma tableOK_weaken:
  "tableOK a b P dp \<Longrightarrow> (\<And>i j. i \<le> length a \<Longrightarrow> j \<le> length b \<Longrightarrow> Q i j \<Longrightarrow> P i j) \<Longrightarrow>
     tableOK a b Q dp"
  by (simp add: tableOK_def)

lemma tableOK_newTable: "tableOK a b (\<lambda>i j. False) (newTable (length a + 1) (length b + 1))"
  by (simp add: tableOK_def newTable_def less_Suc_eq_le del: replicate_Suc)

lemma getCell_ok:
  "tableOK a b P dp \<Longrightarrow> i \<le> length a \<Longrightarrow> j \<le> length b \<Longrightarrow> P i j \<Longrightarrow>
     getCell dp i j = Inr (lev a b i j)"
  by (simp add: tableOK_def getCell_def)

lemma setCell_ok:
  assumes "tableOK a b P dp" "i \<le> length a" "j \<le> length b" "v = lev a b i j"
  shows "\<exists>dp'. setCell dp i j v = Inr dp' \<and> tableOK a b (\<lambda>i' j'. P i' j' \<or> (i' = i \<and> j' = j)) dp'"
proof -
  let ?dp' = "dp[i := (dp ! i)[j := v]]"
  have len: "length dp = length a + 1" and rows: "\<And>k. k \<le> length a \<Longrightarrow> length (dp ! k) = length b + 1"
    and vals: "\<And>k l. k \<le> length a \<Longrightarrow> l \<le> length b \<Longrightarrow> P k l \<Longrightarrow> dp ! k ! l = lev a b k l"
    using assms(1) by (simp_all add: tableOK_def)
  have "setCell dp i j v = Inr ?dp'"
    using assms(2,3) len rows[of i] by (simp add: setCell_def)
  moreover have "tableOK a b (\<lambda>i' j'. P i' j' \<or> (i' = i \<and> j' = j)) ?dp'"
    unfolding tableOK_def
  proof (intro conjI allI impI)
    show "length ?dp' = length a + 1" using len by simp
  next
    fix k assume "k \<le> length a"
    then show "length (?dp' ! k) = length b + 1"
      using len rows[of k] by (cases "k = i") simp_all
  next
    fix k l assume kl: "k \<le> length a" "l \<le> length b" "P k l \<or> (k = i \<and> l = j)"
    show "?dp' ! k ! l = lev a b k l"
    proof (cases "k = i")
      case True
      then show ?thesis
        using kl len rows[of i] vals[of k l] assms(3,4) by (cases "l = j") auto
    next
      case False
      then show ?thesis using kl len vals[of k l] by auto
    qed
  qed
  ultimately show ?thesis by blast
qed

lemma forLoop_rule:
  assumes step: "\<And>k s. lo \<le> k \<Longrightarrow> k < hi \<Longrightarrow> I k s \<Longrightarrow> \<exists>s'. body k s = Inr s' \<and> I (Suc k) s'"
    and init: "I lo s" and le: "lo \<le> hi"
  shows "\<exists>s'. forLoop [lo..<hi] body s = Inr s' \<and> I hi s'"
  using init le step
proof (induction "hi - lo" arbitrary: lo s)
  case 0
  then show ?case by simp
next
  case (Suc n)
  then have lt: "lo < hi" by simp
  from Suc.prems(3)[of lo s] lt Suc.prems(1) obtain s1 where s1: "body lo s = Inr s1" "I (Suc lo) s1"
    by auto
  have "\<exists>s'. forLoop [Suc lo..<hi] body s1 = Inr s' \<and> I hi s'"
  proof (rule Suc.hyps(1))
    show "n = hi - Suc lo" using Suc.hyps(2) by simp
    show "I (Suc lo) s1" by (rule s1(2))
    show "Suc lo \<le> hi" using lt by simp
    fix k s assume "Suc lo \<le> k" "k < hi" "I k s"
    then show "\<exists>s'. body k s = Inr s' \<and> I (Suc k) s'"
      using Suc.prems(3)[of k s] by simp
  qed
  then show ?case using lt s1(1) by (simp add: upt_rec[of lo hi])
qed

lemma charAt_ok: "i < length a \<Longrightarrow> charAt a i = Inr (a ! i)"
  by (simp add: charAt_def)

lemma fillCell_ok:
  assumes ok: "tableOK a b (\<lambda>i' j'. j' = 0 \<or> i' = 0 \<or> i' < i \<or> (i' = i \<and> j' < j)) dp"
    and i: "1 \<le> i" "i \<le> length a" and j: "1 \<le> j" "j \<le> length b"
  shows "\<exists>dp'. fillCell a b i j dp = Inr dp' \<and>
           tableOK a b (\<lambda>i' j'. j' = 0 \<or> i' = 0 \<or> i' < i \<or> (i' = i \<and> j' < Suc j)) dp'"
proof -
  obtain i0 j0 where ij: "i = Suc i0" "j = Suc j0"
    using i(1) j(1) by (metis One_nat_def Suc_le_D)
  have diag: "getCell dp i0 j0 = Inr (lev a b i0 j0)"
    by (rule getCell_ok[OF ok]) (use i j ij in auto)
  have up: "getCell dp i0 j = Inr (lev a b i0 j)"
    by (rule getCell_ok[OF ok]) (use i j ij in auto)
  have left: "getCell dp i j0 = Inr (lev a b i j0)"
    by (rule getCell_ok[OF ok]) (use i j ij in auto)
  let ?v = "lev a b i j"
  from setCell_ok[OF ok i(2) j(2) refl]
  obtain dp' where dp': "setCell dp i j ?v = Inr dp'"
    "tableOK a b (\<lambda>i' j'. (j' = 0 \<or> i' = 0 \<or> i' < i \<or> (i' = i \<and> j' < j)) \<or> (i' = i \<and> j' = j)) dp'"
    by blast
  have "fillCell a b i j dp = setCell dp i j ?v"
    using i j ij diag up left by (simp add: fillCell_def charAt_ok)
  moreover have "tableOK a b (\<lambda>i' j'. j' = 0 \<or> i' = 0 \<or> i' < i \<or> (i' = i \<and> j' < Suc j)) dp'"
    by (rule tableOK_weaken[OF dp'(2)]) auto
  ultimately show ?thesis using dp'(1) by simp
qed

lemma fillRow_ok:
  assumes ok: "tableOK a b (\<lambda>i' j'. j' = 0 \<or> i' = 0 \<or> i' < i) dp"
    and i: "1 \<le> i" "i \<le> length a"
  shows "\<exists>dp'. forLoop [1..<length b + 1] (\<lambda>j. fillCell a b i j) dp = Inr dp' \<and>
           tableOK a b (\<lambda>i' j'. j' = 0 \<or> i' = 0 \<or> i' < Suc i) dp'"
proof -
  let ?I = "\<lambda>j. tableOK a b (\<lambda>i' j'. j' = 0 \<or> i' = 0 \<or> i' < i \<or> (i' = i \<and> j' < j))"
  have "\<exists>dp'. forLoop [1..<length b + 1] (\<lambda>j. fillCell a b i j) dp = Inr dp' \<and> ?I (length b + 1) dp'"
  proof (rule forLoop_rule[where I = ?I])
    show "?I 1 dp" by (rule tableOK_weaken[OF ok]) auto
    show "1 \<le> length b + 1" by simp
    fix k s assume "1 \<le> k" "k < length b + 1" "?I k s"
    then show "\<exists>s'. fillCell a b i k s = Inr s' \<and> ?I (Suc k) s'"
      using fillCell_ok[of a b i k s] i by simp
  qed
  then obtain dp' where dp': "forLoop [1..<length b + 1] (\<lambda>j. fillCell a b i j) dp = Inr dp'"
    "?I (length b + 1) dp'" by blast
  have "tableOK a b (\<lambda>i' j'. j' = 0 \<or> i' = 0 \<or> i' < Suc i) dp'"
    by (rule tableOK_weaken[OF dp'(2)]) auto
  then show ?thesis using dp'(1) by blast
qed

lemma editDistance_lev: "editDistance a b = Inr (lev a b (length a) (length b))"
proof -
  let ?m = "length a" and ?n = "length b"
  let ?I1 = "\<lambda>k. tableOK a b (\<lambda>i j. j = 0 \<and> i < k)"
  have "\<exists>dp. forLoop [0..<?m + 1] (\<lambda>i dp. setCell dp i 0 i) (newTable (?m + 1) (?n + 1)) = Inr dp
          \<and> ?I1 (?m + 1) dp"
  proof (rule forLoop_rule[where I = ?I1])
    show "?I1 0 (newTable (?m + 1) (?n + 1))"
      by (rule tableOK_weaken[OF tableOK_newTable]) simp
    show "0 \<le> ?m + 1" by simp
    fix k s assume k: "0 \<le> k" "k < ?m + 1" "?I1 k s"
    from setCell_ok[OF k(3), of k 0 k] k(2)
    obtain s' where s': "setCell s k 0 k = Inr s'"
      "tableOK a b (\<lambda>i' j'. (j' = 0 \<and> i' < k) \<or> (i' = k \<and> j' = 0)) s'" by auto
    have "?I1 (Suc k) s'" by (rule tableOK_weaken[OF s'(2)]) auto
    then show "\<exists>s'. setCell s k 0 k = Inr s' \<and> ?I1 (Suc k) s'" using s'(1) by blast
  qed
  then obtain dp1 where dp1:
    "forLoop [0..<?m + 1] (\<lambda>i dp. setCell dp i 0 i) (newTable (?m + 1) (?n + 1)) = Inr dp1"
    "?I1 (?m + 1) dp1" by blast
  let ?I2 = "\<lambda>k. tableOK a b (\<lambda>i j. j = 0 \<or> (i = 0 \<and> j < k))"
  have "\<exists>dp. forLoop [0..<?n + 1] (\<lambda>j dp. setCell dp 0 j j) dp1 = Inr dp \<and> ?I2 (?n + 1) dp"
  proof (rule forLoop_rule[where I = ?I2])
    show "?I2 0 dp1"
      using dp1(2) unfolding tableOK_def by auto
    show "0 \<le> ?n + 1" by simp
    fix k s assume k: "0 \<le> k" "k < ?n + 1" "?I2 k s"
    from setCell_ok[OF k(3), of 0 k k] k(2)
    obtain s' where s': "setCell s 0 k k = Inr s'"
      "tableOK a b (\<lambda>i' j'. (j' = 0 \<or> (i' = 0 \<and> j' < k)) \<or> (i' = 0 \<and> j' = k)) s'" by auto
    have "?I2 (Suc k) s'" by (rule tableOK_weaken[OF s'(2)]) auto
    then show "\<exists>s'. setCell s 0 k k = Inr s' \<and> ?I2 (Suc k) s'" using s'(1) by blast
  qed
  then obtain dp2 where dp2: "forLoop [0..<?n + 1] (\<lambda>j dp. setCell dp 0 j j) dp1 = Inr dp2"
    "?I2 (?n + 1) dp2" by blast
  let ?I3 = "\<lambda>k. tableOK a b (\<lambda>i j. j = 0 \<or> i = 0 \<or> i < k)"
  have "\<exists>dp. forLoop [1..<?m + 1] (\<lambda>i. forLoop [1..<?n + 1] (\<lambda>j. fillCell a b i j)) dp2 = Inr dp
          \<and> ?I3 (?m + 1) dp"
  proof (rule forLoop_rule[where I = ?I3])
    show "?I3 1 dp2"
      using dp2(2) unfolding tableOK_def by auto
    show "1 \<le> ?m + 1" by simp
    fix k s assume "1 \<le> k" "k < ?m + 1" "?I3 k s"
    then show "\<exists>s'. forLoop [1..<?n + 1] (\<lambda>j. fillCell a b k j) s = Inr s' \<and> ?I3 (Suc k) s'"
      using fillRow_ok[of a b k s] by simp
  qed
  then obtain dp3 where dp3:
    "forLoop [1..<?m + 1] (\<lambda>i. forLoop [1..<?n + 1] (\<lambda>j. fillCell a b i j)) dp2 = Inr dp3"
    "?I3 (?m + 1) dp3" by blast
  have "getCell dp3 ?m ?n = Inr (lev a b ?m ?n)"
    by (rule getCell_ok[OF dp3(2)]) simp_all
  then show ?thesis
    using dp1(1) dp2(1) dp3(1) by (simp add: editDistance_def Let_def)
qed

section \<open>Strings and trie updates\<close>

lemma concat_codePoints: "concat (codePoints s) = s"
  by (induction s rule: codePoints.induct) simp_all

lemma codePoints_inject: "codePoints a = codePoints b \<Longrightarrow> a = b"
  by (metis concat_codePoints)

lemma wfChildren_iff: "wfChildren cs \<longleftrightarrow> (\<forall>p \<in> set cs. wfNode (snd p))"
  by (induction cs) auto

lemma set_update_cases: "p \<in> set (AList.update k v al) \<Longrightarrow> p = (k, v) \<or> p \<in> set al"
  by (induction al) (auto split: if_splits)

lemma wfChildren_update: "wfChildren cs \<Longrightarrow> wfNode c \<Longrightarrow> wfChildren (AList.update ch c cs)"
  unfolding wfChildren_iff using set_update_cases by fastforce

lemma wfChildren_map_of: "wfChildren cs \<Longrightarrow> map_of cs ch = Some c \<Longrightarrow> wfNode c"
  by (induction cs) (auto split: if_splits)

lemma wfNode_new: "wfNode newTrieNode"
  by (simp add: newTrieNode_def)

lemma wfNode_children: "wfNode t \<Longrightarrow> distinct (map fst (children t)) \<and> wfChildren (children t)"
  by (cases t) simp

lemma wfNode_insertPath: "wfNode t \<Longrightarrow> wfNode (insertPath ks defn t)"
proof (induction ks arbitrary: t)
  case Nil
  then show ?case by (cases t) simp
next
  case (Cons ch rest)
  obtain cs e d where t: "t = TrieNode cs e d" by (cases t)
  have wf: "distinct (map fst cs)" "wfChildren cs" using Cons.prems t by simp_all
  have "wfNode (case map_of cs ch of None \<Rightarrow> newTrieNode | Some c \<Rightarrow> c)"
    using wf(2) by (auto split: option.splits simp: wfNode_new dest: wfChildren_map_of)
  then have "wfNode (insertPath rest defn (case map_of cs ch of None \<Rightarrow> newTrieNode | Some c \<Rightarrow> c))"
    by (rule Cons.IH)
  then show ?case
    using wf t by (simp add: distinct_update wfChildren_update)
qed

lemma searchFrom_new: "searchFrom ks newTrieNode = \<lparr>found = False, resultDefinition = []\<rparr>"
  by (cases ks) (simp_all add: newTrieNode_def)

lemma searchFrom_insertPath_same:
  "searchFrom ks (insertPath ks defn t) = \<lparr>found = True, resultDefinition = defn\<rparr>"
  by (induction ks arbitrary: t) (simp_all add: update_conv')

lemma searchFrom_insertPath_other:
  "ks' \<noteq> ks \<Longrightarrow> searchFrom ks' (insertPath ks defn t) = searchFrom ks' t"
proof (induction ks arbitrary: t ks')
  case Nil
  then show ?case by (cases ks') simp_all
next
  case (Cons ch rest)
  show ?case
  proof (cases ks')
    case Nil
    then show ?thesis by simp
  next
    case (Cons ch' rest')
    show ?thesis
    proof (cases "ch' = ch")
      case False
      then show ?thesis using Cons by (simp add: update_conv')
    next
      case True
      then have ne: "rest' \<noteq> rest" using Cons Cons.prems by simp
      show ?thesis
        using True Cons Cons.IH[OF ne]
        by (simp add: update_conv' searchFrom_new split: option.splits)
    qed
  qed
qed

lemma updateDefinition_found:
  "found (searchFrom ks t) \<Longrightarrow>
     \<exists>t'. updateDefinition ks defn t = Inr t' \<and>
          searchFrom ks t' = \<lparr>found = True, resultDefinition = defn\<rparr> \<and>
          (\<forall>ks'. ks' \<noteq> ks \<longrightarrow> searchFrom ks' t' = searchFrom ks' t) \<and>
          (wfNode t \<longrightarrow> wfNode t') \<and> shape t' = shape t"
proof (induction ks arbitrary: t)
  case Nil
  obtain cs e d where t: "t = TrieNode cs e d" by (cases t)
  have "\<And>ks'. ks' \<noteq> [] \<Longrightarrow> searchFrom ks' (TrieNode cs e defn) = searchFrom ks' t"
    subgoal for ks' using t by (cases ks') simp_all
    done
  then show ?case using Nil t by simp
next
  case (Cons ch rest)
  obtain cs e d where t: "t = TrieNode cs e d" by (cases t)
  from Cons.prems t obtain c where c: "map_of cs ch = Some c" "found (searchFrom rest c)"
    by (auto split: option.splits)
  from Cons.IH[OF c(2)] obtain c' where c':
    "updateDefinition rest defn c = Inr c'"
    "searchFrom rest c' = \<lparr>found = True, resultDefinition = defn\<rparr>"
    "\<And>ks'. ks' \<noteq> rest \<Longrightarrow> searchFrom ks' c' = searchFrom ks' c"
    "wfNode c \<Longrightarrow> wfNode c'" "shape c' = shape c"
    by blast
  let ?t' = "TrieNode (AList.update ch c' cs) e d"
  have 1: "updateDefinition (ch # rest) defn t = Inr ?t'"
    using t c(1) c'(1) by simp
  have 2: "searchFrom (ch # rest) ?t' = \<lparr>found = True, resultDefinition = defn\<rparr>"
    using c'(2) by (simp add: update_conv')
  have 3: "searchFrom ks' ?t' = searchFrom ks' t" if "ks' \<noteq> ch # rest" for ks'
  proof (cases ks')
    case Nil
    then show ?thesis using t by simp
  next
    case (Cons ch' rest')
    then show ?thesis
      using that t c(1) c'(3)[of rest'] by (cases "ch' = ch") (simp_all add: update_conv')
  qed
  have 4: "wfNode ?t'" if "wfNode t"
    using that t c(1) c'(4) by (auto simp: distinct_update intro!: wfChildren_update dest: wfChildren_map_of)
  have upd: "shapeChildren (AList.update k v al) = AList.update k (shape v) (shapeChildren al)" for k v al
    by (induction al) auto
  have triv: "map_of al k = Some v \<Longrightarrow> AList.update k (shape v) (shapeChildren al) = shapeChildren al" for k v al
    by (induction al) (auto split: if_splits)
  have 5: "shape ?t' = shape t"
    using t c(1) c'(5) by (simp add: upd triv)
  show ?case using 1 2 3 4 5 by blast
qed


section \<open>The depth-first traversal\<close>

lemma take_chain:
  "(s @ take (cap - length s) A) @ take (cap - length (s @ take (cap - length s) A)) B
     = s @ take (cap - length s) (A @ B)"
  by (cases "length A \<le> cap - length s") (auto simp: min_def)

lemma dfs_allPaths:
  "dfs node p s cap = s @ take (cap - length s) (map (\<lambda>ks. p @ concat ks) (allPaths node))"
  "dfsChildren cs p s cap = s @ take (cap - length s) (map (\<lambda>ks. p @ concat ks) (childPaths cs))"
proof (induction node p s cap and cs p s cap rule: dfs_dfsChildren.induct)
  case (1 cs e d p s cap)
  show ?case
  proof (cases "cap \<le> length s")
    case True
    then show ?thesis by simp
  next
    case False
    then obtain k where k: "cap - length s = Suc k" by (metis Suc_diff_Suc diff_zero not_le zero_less_diff less_imp_Suc_add)
    then have "cap - length (s @ [p]) = k" by simp
    then show ?thesis using False 1 k by simp
  qed
next
  case (2 p s cap)
  then show ?case by simp
next
  case (3 ch c rest p s cap)
  have "dfsChildren ((ch, c) # rest) p s cap =
          (s @ take (cap - length s) (map (\<lambda>ks. p @ concat ks) (map ((#) ch) (allPaths c)))) @
          take (cap - length (s @ take (cap - length s) (map (\<lambda>ks. p @ concat ks) (map ((#) ch) (allPaths c)))))
            (map (\<lambda>ks. p @ concat ks) (childPaths rest))"
    using 3 by (simp add: comp_def)
  then show ?case by (simp only: take_chain childPaths.simps map_append)
qed

lemma shapeChildren_update:
  "shapeChildren (AList.update k v al) = AList.update k (shape v) (shapeChildren al)"
  by (induction al) auto

lemma map_of_shapeChildren: "map_of (shapeChildren cs) k = map_option shape (map_of cs k)"
  by (induction cs) auto

lemma shape_new: "shape newTrieNode = newTrieNode"
  by (simp add: newTrieNode_def)

lemma shape_insertPath: "shape (insertPath ks defn t) = insertPath ks [] (shape t)"
proof (induction ks arbitrary: t)
  case Nil
  then show ?case by (cases t) simp
next
  case (Cons ch rest)
  obtain cs e d where t: "t = TrieNode cs e d" by (cases t)
  show ?case
    using t Cons.IH
    by (cases "map_of cs ch") (simp_all add: shapeChildren_update map_of_shapeChildren shape_new)
qed

lemma dfs_shape:
  "dfs (shape node) p s cap = dfs node p s cap"
  "dfsChildren (shapeChildren cs) p s cap = dfsChildren cs p s cap"
  by (induction node p s cap and cs p s cap rule: dfs_dfsChildren.induct) simp_all

lemma findNode_shape: "findNode ks (shape t) = map_option shape (findNode ks t)"
proof (induction ks arbitrary: t)
  case Nil
  then show ?case by simp
next
  case (Cons ch rest)
  obtain cs e d where t: "t = TrieNode cs e d" by (cases t)
  show ?case using t Cons.IH by (cases "map_of cs ch") (simp_all add: map_of_shapeChildren)
qed

lemma searchFrom_findNode:
  "searchFrom ks t = (case findNode ks t of
      None \<Rightarrow> \<lparr>found = False, resultDefinition = []\<rparr>
    | Some n \<Rightarrow> \<lparr>found = isEndOfWord n, resultDefinition = definition' n\<rparr>)"
  by (induction ks arbitrary: t) (simp_all split: option.splits)

lemma found_iff_findNode:
  "found (searchFrom ks t) \<longleftrightarrow> (\<exists>n. findNode ks t = Some n \<and> isEndOfWord n)"
  by (simp add: searchFrom_findNode split: option.splits)

lemma findNode_append:
  "findNode (ks @ ks') t = (case findNode ks t of None \<Rightarrow> None | Some n \<Rightarrow> findNode ks' n)"
  by (induction ks arbitrary: t) (simp_all split: option.splits)

lemma searchFrom_append:
  "findNode ks t = Some n \<Longrightarrow> searchFrom (ks @ ks') t = searchFrom ks' n"
  by (simp add: searchFrom_findNode findNode_append)

lemma wfNode_findNode: "wfNode t \<Longrightarrow> findNode ks t = Some n \<Longrightarrow> wfNode n"
proof (induction ks arbitrary: t)
  case Nil
  then show ?case by simp
next
  case (Cons ch rest)
  obtain cs e d where t: "t = TrieNode cs e d" by (cases t)
  from Cons.prems t obtain c where c: "map_of cs ch = Some c" "findNode rest c = Some n"
    by (auto split: option.splits)
  have "wfNode c" using Cons.prems(1) t c(1) by (auto dest: wfChildren_map_of)
  then show ?case using Cons.IH c(2) by blast
qed

text \<open>The paths of a well-formed node are its terminal paths, each once.\<close>

lemma in_childPaths:
  "p \<in> set (childPaths cs) \<longleftrightarrow> (\<exists>ch c ks. p = ch # ks \<and> (ch, c) \<in> set cs \<and> ks \<in> set (allPaths c))"
proof (induction cs)
  case Nil
  then show ?case by simp
next
  case (Cons a cs)
  obtain ch0 c0 where a: "a = (ch0, c0)" by (cases a)
  show ?case unfolding a using Cons.IH by (simp add: image_iff) blast
qed

lemma set_childPaths:
  "set (childPaths cs) = {ch # ks | ch c ks. (ch, c) \<in> set cs \<and> ks \<in> set (allPaths c)}"
  using in_childPaths by blast

lemma allPaths_found:
  "wfNode t \<Longrightarrow> ks \<in> set (allPaths t) \<longleftrightarrow> found (searchFrom ks t)"
proof (induction ks arbitrary: t)
  case Nil
  obtain cs e d where t: "t = TrieNode cs e d" by (cases t)
  show ?case using t by (auto simp: set_childPaths)
next
  case (Cons ch rest)
  obtain cs e d where t: "t = TrieNode cs e d" by (cases t)
  have wf: "distinct (map fst cs)" "wfChildren cs" using Cons.prems t by simp_all
  have "ch # rest \<in> set (allPaths t) \<longleftrightarrow> (\<exists>c. (ch, c) \<in> set cs \<and> rest \<in> set (allPaths c))"
    using t by (auto simp: set_childPaths)
  also have "\<dots> \<longleftrightarrow> (\<exists>c. map_of cs ch = Some c \<and> rest \<in> set (allPaths c))"
    using wf(1) by (auto dest: map_of_SomeD)
  also have "\<dots> \<longleftrightarrow> (\<exists>c. map_of cs ch = Some c \<and> found (searchFrom rest c))"
    using Cons.IH wf(2) by (metis wfChildren_map_of)
  also have "\<dots> \<longleftrightarrow> found (searchFrom (ch # rest) t)"
    using t by (auto split: option.splits)
  finally show ?case .
qed

lemma distinct_allPaths:
  "wfNode t \<Longrightarrow> distinct (allPaths t)"
  "distinct (map fst cs) \<Longrightarrow> wfChildren cs \<Longrightarrow> distinct (childPaths cs)"
proof (induction t and cs rule: allPaths_childPaths.induct)
  case (1 cs e d)
  then show ?case by (auto simp: set_childPaths)
next
  case 2
  then show ?case by simp
next
  case (3 ch c rest)
  have "distinct (map ((#) ch) (allPaths c))"
    using 3 by (simp add: distinct_map)
  moreover have "distinct (childPaths rest)" using 3 by simp
  moreover have "set (map ((#) ch) (allPaths c)) \<inter> set (childPaths rest) = {}"
    using 3(3) by (auto simp: set_childPaths) (metis fst_conv image_eqI)
  ultimately show ?case by simp
qed


section \<open>Insertion keeps the invariant\<close>

lemma dictInv_new: "dictInv newWordDictionary"
  by (simp add: dictInv_def newWordDictionary_def wfNode_new searchFrom_new trieOf_def shape_new)

lemma agrees_new: "agrees newWordDictionary Map.empty"
  by (simp add: agrees_def newWordDictionary_def)

lemma insertWord_step:
  assumes inv: "dictInv d"
  shows "\<exists>d'. insertWord lc d w defn = Inr d' \<and> dictInv d' \<and>
     wordsSet d' = insert (lc w) (wordsSet d) \<and>
     wordList d' = (if lc w \<in> wordsSet d then wordList d else wordList d @ [lc w]) \<and>
     searchFrom (codePoints (lc w)) (root d') =
       \<lparr>found = True,
        resultDefinition = (if lc w \<in> wordsSet d \<and> defn = []
                            then resultDefinition (searchFrom (codePoints (lc w)) (root d))
                            else defn)\<rparr> \<and>
     (\<forall>ks. ks \<noteq> codePoints (lc w) \<longrightarrow> searchFrom ks (root d') = searchFrom ks (root d)) \<and>
     (lc w \<in> wordsSet d \<and> defn = [] \<longrightarrow> d' = d)"
proof -
  let ?lw = "lc w" and ?ks = "codePoints (lc w)"
  have wf: "wfNode (root d)" and sl: "set (wordList d) = wordsSet d" and dl: "distinct (wordList d)"
    and fnd: "\<And>ks. found (searchFrom ks (root d)) \<longleftrightarrow> (\<exists>w \<in> wordsSet d. ks = codePoints w)"
    and sh: "shape (root d) = trieOf (wordList d)"
    using inv by (simp_all add: dictInv_def)
  show ?thesis
  proof (cases "?lw \<in> wordsSet d")
    case False
    let ?d' = "\<lparr>root = insertPath ?ks defn (root d), wordList = wordList d @ [?lw],
               wordsSet = insert ?lw (wordsSet d)\<rparr>"
    have 1: "insertWord lc d w defn = Inr ?d'"
      using False by (simp add: insertWord_def Let_def)
    have f': "found (searchFrom ks (root ?d')) \<longleftrightarrow> (\<exists>w \<in> wordsSet ?d'. ks = codePoints w)" for ks
    proof (cases "ks = ?ks")
      case True
      then show ?thesis by (auto simp: searchFrom_insertPath_same)
    next
      case ne: False
      then have "found (searchFrom ks (root ?d')) \<longleftrightarrow> (\<exists>w \<in> wordsSet d. ks = codePoints w)"
        by (simp add: searchFrom_insertPath_other fnd)
      then show ?thesis using ne by auto
    qed
    have "shape (root ?d') = trieOf (wordList ?d')"
      by (simp add: shape_insertPath sh trieOf_def)
    then have 2: "dictInv ?d'"
      unfolding dictInv_def using f' wf sl dl False by (simp add: wfNode_insertPath)
    show ?thesis
      using 1 2 False by (simp add: searchFrom_insertPath_same searchFrom_insertPath_other)
  next
    case True
    then have here: "found (searchFrom ?ks (root d))" using fnd by blast
    show ?thesis
    proof (cases "defn = []")
      case empty: True
      have "insertWord lc d w defn = Inr d" using True empty by (simp add: insertWord_def Let_def)
      moreover have "searchFrom ?ks (root d) =
          \<lparr>found = True, resultDefinition = resultDefinition (searchFrom ?ks (root d))\<rparr>"
        using here by (cases "searchFrom ?ks (root d)") simp
      ultimately show ?thesis using True empty inv by auto
    next
      case nonempty: False
      from updateDefinition_found[OF here, of defn] obtain t' where t':
        "updateDefinition ?ks defn (root d) = Inr t'"
        "searchFrom ?ks t' = \<lparr>found = True, resultDefinition = defn\<rparr>"
        "\<And>ks'. ks' \<noteq> ?ks \<Longrightarrow> searchFrom ks' t' = searchFrom ks' (root d)"
        "wfNode t'" "shape t' = shape (root d)"
        using wf by blast
      let ?d' = "d\<lparr>root := t'\<rparr>"
      have 1: "insertWord lc d w defn = Inr ?d'"
        using True nonempty t'(1) by (simp add: insertWord_def Let_def)
      have f': "found (searchFrom ks (root ?d')) \<longleftrightarrow> (\<exists>w \<in> wordsSet ?d'. ks = codePoints w)" for ks
      proof (cases "ks = ?ks")
        case True
        then show ?thesis using t'(2) \<open>?lw \<in> wordsSet d\<close> by auto
      next
        case False
        then show ?thesis using t'(3) fnd by simp
      qed
      have 2: "dictInv ?d'"
        unfolding dictInv_def using f' t'(4,5) sl dl sh by simp
      show ?thesis
        using 1 2 True nonempty t'(2,3) by (auto simp: insert_absorb)
    qed
  qed
qed

lemma agrees_step:
  assumes "dictInv d" "agrees d m" "insertWord lc d w defn = Inr d'"
  shows "agrees d' (updateSemantics lc m (w, defn))"
proof -
  let ?lw = "lc w"
  from insertWord_step[OF assms(1), of lc w defn] assms(3)
  have ws: "wordsSet d' = insert ?lw (wordsSet d)"
    and here: "searchFrom (codePoints ?lw) (root d') =
       \<lparr>found = True,
        resultDefinition = (if ?lw \<in> wordsSet d \<and> defn = []
                            then resultDefinition (searchFrom (codePoints ?lw) (root d))
                            else defn)\<rparr>"
    and other: "\<And>ks. ks \<noteq> codePoints ?lw \<Longrightarrow> searchFrom ks (root d') = searchFrom ks (root d)"
    by auto
  have dm: "dom m = wordsSet d"
    and vals: "\<And>w x. m w = Some x \<Longrightarrow> searchFrom (codePoints w) (root d) = \<lparr>found = True, resultDefinition = x\<rparr>"
    using assms(2) by (auto simp: agrees_def)
  let ?m' = "updateSemantics lc m (w, defn)"
  have dom': "dom ?m' = wordsSet d'"
    using dm ws by (auto simp: updateSemantics_def Let_def split: option.splits if_splits)
  have vals': "searchFrom (codePoints v) (root d') = \<lparr>found = True, resultDefinition = x\<rparr>"
    if "?m' v = Some x" for v x
  proof (cases "v = ?lw")
    case False
    then have "m v = Some x"
      using that by (auto simp: updateSemantics_def Let_def split: option.splits if_splits)
    moreover have "codePoints v \<noteq> codePoints ?lw" using False codePoints_inject by blast
    ultimately show ?thesis using other vals by simp
  next
    case True
    show ?thesis
    proof (cases "m ?lw")
      case None
      then have "?lw \<notin> wordsSet d" using dm by auto
      moreover have "x = defn" using that True None by (simp add: updateSemantics_def)
      ultimately show ?thesis using here True by simp
    next
      case (Some old)
      then have in_set: "?lw \<in> wordsSet d" using dm by auto
      show ?thesis
      proof (cases "defn = []")
        case True
        then have "x = old" using that \<open>v = ?lw\<close> Some by (simp add: updateSemantics_def)
        then show ?thesis using here in_set True vals[OF Some] \<open>v = ?lw\<close> by simp
      next
        case False
        then have "x = defn" using that \<open>v = ?lw\<close> Some by (simp add: updateSemantics_def)
        then show ?thesis using here False \<open>v = ?lw\<close> by simp
      qed
    qed
  qed
  show ?thesis unfolding agrees_def using dom' vals' by blast
qed

lemma insertAll_inv:
  "dictInv d \<Longrightarrow> agrees d m \<Longrightarrow>
     \<exists>d'. insertAll lc d ops = Inr d' \<and> dictInv d' \<and>
          agrees d' (foldl (updateSemantics lc) m ops) \<and>
          wordList d' = newSet (wordList d) (map (\<lambda>p. lc (fst p)) ops) \<and>
          wordsSet d' = wordsSet d \<union> (\<lambda>p. lc (fst p)) ` set ops"
proof (induction ops arbitrary: d m)
  case Nil
  then show ?case by simp
next
  case (Cons p ops)
  obtain w defn where p: "p = (w, defn)" by (cases p)
  from insertWord_step[OF Cons.prems(1), of lc w defn] obtain d1 where d1:
    "insertWord lc d w defn = Inr d1" "dictInv d1"
    "wordsSet d1 = insert (lc w) (wordsSet d)"
    "wordList d1 = (if lc w \<in> wordsSet d then wordList d else wordList d @ [lc w])"
    by blast
  have ag: "agrees d1 (updateSemantics lc m (w, defn))"
    by (rule agrees_step[OF Cons.prems d1(1)])
  from Cons.IH[OF d1(2) ag] obtain d' where d':
    "insertAll lc d1 ops = Inr d'" "dictInv d'"
    "agrees d' (foldl (updateSemantics lc) (updateSemantics lc m (w, defn)) ops)"
    "wordList d' = newSet (wordList d1) (map (\<lambda>p. lc (fst p)) ops)"
    "wordsSet d' = wordsSet d1 \<union> (\<lambda>p. lc (fst p)) ` set ops"
    by blast
  have "set (wordList d) = wordsSet d" using Cons.prems(1) by (simp add: dictInv_def)
  then show ?case
    using p d1 d' by auto
qed

lemma reachable:
  "\<exists>d. insertAll lc newWordDictionary ops = Inr d \<and> dictInv d \<and>
        agrees d (expectedDefinitions lc ops) \<and>
        wordList d = newSet [] (map (\<lambda>p. lc (fst p)) ops) \<and>
        wordsSet d = (\<lambda>p. lc (fst p)) ` set ops"
  using insertAll_inv[OF dictInv_new agrees_new, of lc ops]
  by (simp add: expectedDefinitions_def newWordDictionary_def)

section \<open>Suggestions\<close>

lemma newSet_distinct: "distinct (seen @ xs) \<Longrightarrow> newSet seen xs = seen @ xs"
  by (induction xs arbitrary: seen) auto

lemma prefix_codePoints: "prefix (codePoints a) (codePoints b) \<Longrightarrow> prefix a b"
proof -
  assume "prefix (codePoints a) (codePoints b)"
  then obtain ks where "codePoints b = codePoints a @ ks" by (auto simp: prefix_def)
  then have "concat (codePoints b) = concat (codePoints a) @ concat ks" by simp
  then show ?thesis by (simp add: concat_codePoints)
qed

lemma subtree_words:
  assumes inv: "dictInv d" and node: "findNode (codePoints lp) (root d) = Some node"
  shows "distinct (map (\<lambda>ks. lp @ concat ks) (allPaths node)) \<and>
         set (map (\<lambda>ks. lp @ concat ks) (allPaths node)) =
           {w \<in> wordsSet d. prefix (codePoints lp) (codePoints w)}"
proof -
  let ?pks = "codePoints lp"
  let ?f = "\<lambda>ks. lp @ concat ks"
  have wf: "wfNode node"
    using inv node by (auto simp: dictInv_def intro: wfNode_findNode)
  have fnd: "\<And>ks. found (searchFrom ks (root d)) \<longleftrightarrow> (\<exists>w \<in> wordsSet d. ks = codePoints w)"
    using inv by (simp add: dictInv_def)
  have mem: "ks \<in> set (allPaths node) \<longleftrightarrow> (\<exists>w \<in> wordsSet d. ?pks @ ks = codePoints w)" for ks
    using allPaths_found[OF wf, of ks] searchFrom_append[OF node, of ks]
      fnd[of "codePoints lp @ ks"] by metis
  have img: "?f ks = w" if "?pks @ ks = codePoints w" for ks w
  proof -
    have "concat (?pks @ ks) = w" using that by (simp add: concat_codePoints)
    then show ?thesis by (simp add: concat_codePoints)
  qed
  have "inj_on ?f (set (allPaths node))"
  proof (rule inj_onI)
    fix k1 k2 assume k: "k1 \<in> set (allPaths node)" "k2 \<in> set (allPaths node)" "?f k1 = ?f k2"
    from k(1,2) mem obtain w1 w2 where w: "?pks @ k1 = codePoints w1" "?pks @ k2 = codePoints w2"
      by blast
    then have "w1 = w2" using img k(3) by metis
    then show "k1 = k2" using w by (metis same_append_eq)
  qed
  then have 1: "distinct (map ?f (allPaths node))"
    using distinct_allPaths(1)[OF wf] by (simp add: distinct_map)
  have 2: "set (map ?f (allPaths node)) = {w \<in> wordsSet d. prefix ?pks (codePoints w)}"
  proof (intro equalityI subsetI)
    fix w assume "w \<in> set (map ?f (allPaths node))"
    then obtain ks where ks: "ks \<in> set (allPaths node)" "w = ?f ks" by auto
    from ks(1) mem obtain w' where w': "w' \<in> wordsSet d" "?pks @ ks = codePoints w'" by blast
    then have "w = w'" using img ks(2) by metis
    then show "w \<in> {w \<in> wordsSet d. prefix ?pks (codePoints w)}"
      using w' by (metis (mono_tags, lifting) mem_Collect_eq prefixI)
  next
    fix w assume "w \<in> {w \<in> wordsSet d. prefix ?pks (codePoints w)}"
    then obtain ks where w: "w \<in> wordsSet d" "codePoints w = ?pks @ ks" by (auto simp: prefix_def)
    then have "ks \<in> set (allPaths node)" using mem by metis
    moreover have "?f ks = w" using img w(2) by metis
    ultimately show "w \<in> set (map ?f (allPaths node))" by force
  qed
  show ?thesis using 1 2 by blast
qed

lemma no_subtree:
  assumes inv: "dictInv d" and none: "findNode (codePoints lp) (root d) = None"
  shows "{w \<in> wordsSet d. prefix (codePoints lp) (codePoints w)} = {}"
proof -
  have fnd: "\<And>ks. found (searchFrom ks (root d)) \<longleftrightarrow> (\<exists>w \<in> wordsSet d. ks = codePoints w)"
    using inv by (simp add: dictInv_def)
  {
    fix w assume w: "w \<in> wordsSet d" "prefix (codePoints lp) (codePoints w)"
    then obtain ks where ks: "codePoints w = codePoints lp @ ks" by (auto simp: prefix_def)
    have "found (searchFrom (codePoints w) (root d))" using fnd w(1) by blast
    then have "findNode (codePoints lp @ ks) (root d) \<noteq> None"
      using ks by (auto simp: found_iff_findNode)
    then have False using none by (simp add: findNode_append)
  }
  then show ?thesis by blast
qed

lemma getAutoSuggestions_take:
  assumes inv: "dictInv d"
  shows "\<exists>xs. distinct xs \<and> set xs = {w \<in> wordsSet d. prefix (codePoints (lc p)) (codePoints w)} \<and>
          (\<forall>n. getAutoSuggestions lc d p n = take n xs)"
proof (cases "findNode (codePoints (lc p)) (root d)")
  case None
  then have "\<forall>n. getAutoSuggestions lc d p n = take n []"
    by (simp add: getAutoSuggestions_def)
  then show ?thesis using no_subtree[OF inv None] by (metis distinct.simps(1) empty_set)
next
  case (Some node)
  let ?xs = "map (\<lambda>ks. lc p @ concat ks) (allPaths node)"
  from subtree_words[OF inv Some] have xs: "distinct ?xs"
    "set ?xs = {w \<in> wordsSet d. prefix (codePoints (lc p)) (codePoints w)}" by blast+
  have "getAutoSuggestions lc d p n = take n ?xs" for n
  proof -
    have "dfs node (lc p) [] (n * 3) = take (n * 3) ?xs"
      by (simp add: dfs_allPaths(1))
    moreover have "distinct ([] @ take (n * 3) ?xs)" using xs(1) by simp
    then have "newSet [] (take (n * 3) ?xs) = take (n * 3) ?xs"
      using newSet_distinct by fastforce
    ultimately show ?thesis
      using Some by (simp add: getAutoSuggestions_def Let_def min_def)
  qed
  then show ?thesis using xs by blast
qed

section \<open>Spelling corrections\<close>

lemma collectCandidates_filter:
  "collectCandidates lw maxD ws acc =
     Inr (acc @ map (\<lambda>w. \<lparr>word = w, distance = lev lw w (length lw) (length w)\<rparr>)
                  (filter (\<lambda>w. 0 < lev lw w (length lw) (length w) \<and>
                                lev lw w (length lw) (length w) \<le> maxD) ws))"
  by (induction ws arbitrary: acc) (simp_all add: editDistance_lev)

lemma set_insertSorted: "set (insertSorted c x ys) = insert x (set ys)"
  by (induction ys) auto

lemma set_arraySort: "set (arraySort c xs) = set xs"
  by (induction xs) (simp_all add: arraySort_def set_insertSorted)

lemma distinct_map_insertSorted:
  "distinct (map f (insertSorted c x ys)) \<longleftrightarrow> f x \<notin> f ` set ys \<and> distinct (map f ys)"
  by (induction ys) (auto simp: set_insertSorted)

lemma distinct_map_arraySort: "distinct (map f (arraySort c xs)) \<longleftrightarrow> distinct (map f xs)"
  by (induction xs) (simp_all add: arraySort_def distinct_map_insertSorted set_arraySort[unfolded arraySort_def])

lemma sorted_insertSorted:
  assumes total: "\<And>a b. c a b \<le> 0 \<or> c b a \<le> 0"
    and trans: "\<And>a b z. c a b \<le> 0 \<Longrightarrow> c b z \<le> 0 \<Longrightarrow> c a z \<le> 0"
  shows "sorted_wrt (\<lambda>a b. c a b \<le> 0) ys \<Longrightarrow> sorted_wrt (\<lambda>a b. c a b \<le> 0) (insertSorted c x ys)"
proof (induction ys)
  case Nil
  then show ?case by simp
next
  case (Cons y ys)
  show ?case
  proof (cases "c x y \<le> 0")
    case True
    then have "\<forall>z \<in> set (y # ys). c x z \<le> 0" using Cons.prems trans by auto
    then show ?thesis using True Cons.prems by simp
  next
    case False
    then have "c y x \<le> 0" using total by blast
    then show ?thesis using False Cons by (auto simp: set_insertSorted)
  qed
qed

lemma sorted_arraySort:
  assumes total: "\<And>a b. c a b \<le> 0 \<or> c b a \<le> 0"
    and trans: "\<And>a b z. c a b \<le> 0 \<Longrightarrow> c b z \<le> 0 \<Longrightarrow> c a z \<le> 0"
  shows "sorted_wrt (\<lambda>a b. c a b \<le> 0) (arraySort c xs)"
proof (induction xs)
  case Nil
  then show ?case by (simp add: arraySort_def)
next
  case (Cons x xs)
  then show ?case
    using sorted_insertSorted[of c "foldr (insertSorted c) xs []" x] total trans
    by (simp add: arraySort_def)
qed

lemma keepFirst_take:
  "distinct (map word cs) \<Longrightarrow> word ` set cs \<inter> seen = {} \<Longrightarrow> length unique < maxS \<Longrightarrow>
     keepFirst maxS cs seen unique = unique @ take (maxS - length unique) cs"
proof (induction cs arbitrary: seen unique)
  case Nil
  then show ?case by simp
next
  case (Cons c cs)
  have notin: "word c \<notin> seen" using Cons.prems(2) by auto
  show ?case
  proof (cases "maxS \<le> length (unique @ [c])")
    case True
    then have "maxS - length unique = 1" using Cons.prems(3) by simp
    then show ?thesis using True notin by simp
  next
    case False
    have "keepFirst maxS cs (insert (word c) seen) (unique @ [c]) =
            (unique @ [c]) @ take (maxS - length (unique @ [c])) cs"
      by (rule Cons.IH) (use Cons.prems False in auto)
    moreover have "maxS - length unique = Suc (maxS - length (unique @ [c]))"
      using False by simp
    ultimately show ?thesis using False notin by simp
  qed
qed

lemma compareCandidates_le:
  "compareCandidates cmp a b \<le> 0 \<longleftrightarrow>
     distance a < distance b \<or> (distance a = distance b \<and> cmp (word a) (word b) \<le> 0)"
  by (auto simp: compareCandidates_def Let_def)

lemma getSpellingCorrections_sorted:
  assumes dl: "distinct (wordList d)" and pos: "0 < maxS"
  shows "getSpellingCorrections lc cmp d q maxD maxS =
     Inr (map word (take maxS (arraySort (compareCandidates cmp)
       (map (\<lambda>w. \<lparr>word = w, distance = lev (lc q) w (length (lc q)) (length w)\<rparr>)
          (filter (\<lambda>w. 0 < lev (lc q) w (length (lc q)) (length w) \<and>
                        lev (lc q) w (length (lc q)) (length w) \<le> maxD) (wordList d))))))"
proof -
  let ?mk = "\<lambda>w. \<lparr>word = w, distance = lev (lc q) w (length (lc q)) (length w)\<rparr>"
  let ?ok = "\<lambda>w. 0 < lev (lc q) w (length (lc q)) (length w) \<and>
                        lev (lc q) w (length (lc q)) (length w) \<le> maxD"
  let ?cs = "map ?mk (filter ?ok (wordList d))"
  have "map word ?cs = filter ?ok (wordList d)" by (simp add: comp_def)
  then have "distinct (map word ?cs)" using dl by simp
  then have "distinct (map word (arraySort (compareCandidates cmp) ?cs))"
    by (simp only: distinct_map_arraySort)
  then have "keepFirst maxS (arraySort (compareCandidates cmp) ?cs) {} [] =
               [] @ take (maxS - length ([]::Candidate list)) (arraySort (compareCandidates cmp) ?cs)"
    by (intro keepFirst_take) (use pos in simp_all)
  then show ?thesis
    by (simp add: getSpellingCorrections_def Let_def collectCandidates_filter)
qed

lemma getSpellingCorrections_returns:
  "\<exists>r. getSpellingCorrections lc cmp d q maxD maxS = Inr r"
  by (simp add: getSpellingCorrections_def Let_def collectCandidates_filter)

section \<open>Reachable dictionaries\<close>

lemma insertAll_dictionaryOf: "insertAll lc newWordDictionary ops = Inr (dictionaryOf lc ops)"
  using reachable[of lc ops] by (auto simp: dictionaryOf_def)

lemma reachable_exE:
  "\<exists>d. insertAll lc newWordDictionary ops = Inr d \<and> P d \<Longrightarrow> P (dictionaryOf lc ops)"
  using insertAll_dictionaryOf[of lc ops] by auto


lemma reachable_inv:
  assumes "insertAll lc newWordDictionary ops = Inr d"
  shows "dictInv d" "agrees d (expectedDefinitions lc ops)"
    "wordList d = newSet [] (map (\<lambda>p. lc (fst p)) ops)"
    "wordsSet d = (\<lambda>p. lc (fst p)) ` set ops"
  using reachable[of lc ops] assms by auto

lemma member_iff_terminal:
  assumes "dictInv d"
  shows "w \<in> wordsSet d \<longleftrightarrow> found (searchFrom (codePoints w) (root d))"
proof -
  have "found (searchFrom (codePoints w) (root d)) \<longleftrightarrow> (\<exists>v \<in> wordsSet d. codePoints w = codePoints v)"
    using assms by (simp add: dictInv_def)
  then show ?thesis using codePoints_inject by blast
qed

lemma codePoints_append:
  "p = [] \<or> \<not> isHighSurrogate (last p) \<Longrightarrow> codePoints (p @ s) = codePoints p @ codePoints s"
proof (induction p rule: codePoints.induct)
  case 1
  then show ?case by simp
next
  case (2 u)
  then show ?case by (cases s) simp_all
next
  case (3 u v p)
  then show ?case by (cases "p = []") auto
qed

lemma prefix_codePoints_iff:
  assumes "p = [] \<or> \<not> isHighSurrogate (last p)"
  shows "prefix (codePoints p) (codePoints w) \<longleftrightarrow> prefix p w"
proof
  assume "prefix p w"
  then obtain s where "w = p @ s" by (auto simp: prefix_def)
  then show "prefix (codePoints p) (codePoints w)"
    using codePoints_append[OF assms, of s] by simp
qed (rule prefix_codePoints)

lemma suggestions_same_shape:
  assumes "shape (root d1) = shape (root d2)"
  shows "getAutoSuggestions lc d1 p n = getAutoSuggestions lc d2 p n"
proof -
  let ?ks = "codePoints (lc p)"
  have eq: "map_option shape (findNode ?ks (root d1)) = map_option shape (findNode ?ks (root d2))"
    using assms findNode_shape by metis
  show ?thesis
  proof (cases "findNode ?ks (root d1)")
    case None
    then have "findNode ?ks (root d2) = None" using eq by simp
    then show ?thesis using None by (simp add: getAutoSuggestions_def)
  next
    case (Some n1)
    then obtain n2 where n2: "findNode ?ks (root d2) = Some n2" "shape n1 = shape n2"
      using eq by (cases "findNode ?ks (root d2)") auto
    have "dfs n1 (lc p) [] (n * 3) = dfs n2 (lc p) [] (n * 3)"
      using n2(2) dfs_shape(1) by metis
    then show ?thesis using Some n2(1) by (simp add: getAutoSuggestions_def)
  qed
qed

lemma compareCandidates_total:
  assumes "\<forall>a b. cmp a b \<le> 0 \<or> cmp b a \<le> 0"
  shows "compareCandidates cmp x y \<le> 0 \<or> compareCandidates cmp y x \<le> 0"
  unfolding compareCandidates_le using assms by (metis nat_neq_iff)

lemma compareCandidates_trans:
  assumes "\<forall>a b c. cmp a b \<le> 0 \<and> cmp b c \<le> 0 \<longrightarrow> cmp a c \<le> 0"
    and "compareCandidates cmp x y \<le> 0" "compareCandidates cmp y z \<le> 0"
  shows "compareCandidates cmp x z \<le> 0"
proof -
  from assms(2,3) consider "distance x < distance z"
    | "distance x = distance y" "distance y = distance z"
      "cmp (word x) (word y) \<le> 0" "cmp (word y) (word z) \<le> 0"
    unfolding compareCandidates_le by force
  then show ?thesis
  proof cases
    case 1
    then show ?thesis by (simp add: compareCandidates_le)
  next
    case 2
    then have "cmp (word x) (word z) \<le> 0" using assms(1) by blast
    then show ?thesis using 2 by (simp add: compareCandidates_le)
  qed
qed


section \<open>Throws of the lookups and of the traversal\<close>

lemma mapGet_None_iff: "mapGet m k = None \<longleftrightarrow> \<not> mapHas m k"
  by (simp add: mapGet_def mapHas_def map_of_eq_None_iff)

lemma searchFromE_searchFrom: "searchFromE ks t = Inr (searchFrom ks t)"
proof (induction ks arbitrary: t)
  case Nil
  then show ?case by simp
next
  case (Cons ch rest)
  show ?case
  proof (cases "mapGet (children t) ch")
    case None
    then show ?thesis using mapGet_None_iff[of "children t" ch] by (simp add: mapGet_def)
  next
    case (Some c)
    then show ?thesis
      using mapGet_None_iff[of "children t" ch] Cons.IH[of c] by (simp add: mapGet_def)
  qed
qed

lemma findNodeE_findNode: "findNodeE ks t = Inr (findNode ks t)"
proof (induction ks arbitrary: t)
  case Nil
  then show ?case by simp
next
  case (Cons ch rest)
  show ?case
  proof (cases "mapGet (children t) ch")
    case None
    then show ?thesis using mapGet_None_iff[of "children t" ch] by (simp add: mapGet_def)
  next
    case (Some c)
    then show ?thesis
      using mapGet_None_iff[of "children t" ch] Cons.IH[of c] by (simp add: mapGet_def)
  qed
qed

lemma dfsE_cases:
  "dfsE stack node p s cap = Inr (dfs node p s cap) \<or> dfsE stack node p s cap = Inl RangeError"
  "dfsChildrenE stack cs p s cap = Inr (dfsChildren cs p s cap) \<or>
     dfsChildrenE stack cs p s cap = Inl RangeError"
proof (induction stack node p s cap and stack cs p s cap rule: dfsE_dfsChildrenE.induct)
  case (1 node p s cap)
  then show ?case by simp
next
  case (2 stack cs e d p s cap)
  then show ?case by simp
next
  case (3 stack p s cap)
  then show ?case by simp
next
  case (4 stack ch c rest p s cap)
  from 4(1) show ?case
  proof
    assume a: "dfsE stack c (p @ ch) s cap = Inr (dfs c (p @ ch) s cap)"
    from 4(2)[of "dfs c (p @ ch) s cap"] show ?thesis using a by auto
  next
    assume "dfsE stack c (p @ ch) s cap = Inl RangeError"
    then show ?thesis by simp
  qed
qed

lemma dfsE_returns:
  "height node \<le> stack \<Longrightarrow> dfsE stack node p s cap = Inr (dfs node p s cap)"
  "heightChildren cs \<le> stack \<Longrightarrow> dfsChildrenE stack cs p s cap = Inr (dfsChildren cs p s cap)"
proof (induction stack node p s cap and stack cs p s cap rule: dfsE_dfsChildrenE.induct)
  case (1 node p s cap)
  then show ?case by (cases node) simp
next
  case (2 stack cs e d p s cap)
  then show ?case by simp
next
  case (3 stack p s cap)
  then show ?case by simp
next
  case (4 stack ch c rest p s cap)
  have a: "dfsE stack c (p @ ch) s cap = Inr (dfs c (p @ ch) s cap)"
    using 4(1) 4(3) by simp
  have "dfsChildrenE stack rest p (dfs c (p @ ch) s cap) cap =
          Inr (dfsChildren rest p (dfs c (p @ ch) s cap) cap)"
    using 4(2)[of "dfs c (p @ ch) s cap"] 4(3) by simp
  then show ?case using a by simp
qed

lemma dfsE_overflow:
  "stack \<le> length ks \<Longrightarrow> length s < cap \<Longrightarrow>
     dfsE stack (insertPath ks defn newTrieNode) p s cap = Inl RangeError"
proof (induction ks arbitrary: stack p)
  case Nil
  then show ?case by simp
next
  case (Cons k ks)
  show ?case
  proof (cases stack)
    case 0
    then show ?thesis by simp
  next
    case (Suc f)
    then have "dfsE f (insertPath ks defn newTrieNode) (p @ k) s cap = Inl RangeError"
      using Cons.IH[of f "p @ k"] Cons.prems by simp
    then show ?thesis using Suc Cons.prems(2) by (simp add: newTrieNode_def)
  qed
qed

section \<open>The height of the trie\<close>

lemma height_pos: "0 < height t"
  by (cases t) simp

lemma heightChildren_map_of: "map_of cs k = Some c \<Longrightarrow> height c \<le> heightChildren cs"
  by (induction cs) (auto split: if_splits)

lemma heightChildren_update:
  "heightChildren (AList.update k v cs) \<le> max (height v) (heightChildren cs)"
  by (induction cs) auto

lemma height_new: "height newTrieNode = 1"
  by (simp add: newTrieNode_def)

lemma height_insertPath: "height (insertPath ks defn t) \<le> max (height t) (Suc (length ks))"
proof (induction ks arbitrary: t)
  case Nil
  then show ?case by (cases t) simp
next
  case (Cons ch rest)
  obtain cs e d where t: "t = TrieNode cs e d" by (cases t)
  let ?child = "case map_of cs ch of None \<Rightarrow> newTrieNode | Some c \<Rightarrow> c"
  have c: "height ?child \<le> max (heightChildren cs) 1"
    by (auto split: option.splits simp: height_new dest: heightChildren_map_of)
  have "height (insertPath rest defn ?child) \<le> max (height ?child) (Suc (length rest))"
    by (rule Cons.IH)
  then have "height (insertPath rest defn ?child) \<le> max (heightChildren cs) (Suc (length rest))"
    using c by simp
  moreover have "heightChildren (AList.update ch (insertPath rest defn ?child) cs) \<le>
      max (height (insertPath rest defn ?child)) (heightChildren cs)"
    by (rule heightChildren_update)
  ultimately show ?case using t by simp
qed

lemma height_shape:
  "height (shape t) = height t"
  "heightChildren (shapeChildren cs) = heightChildren cs"
  by (induction t and cs rule: shape_shapeChildren.induct) simp_all

lemma height_trieOf:
  "0 < b \<Longrightarrow> \<forall>w \<in> set ws. length (codePoints w) < b \<Longrightarrow> height (trieOf ws) \<le> b"
proof (induction ws rule: rev_induct)
  case Nil
  then show ?case by (simp add: trieOf_def height_new)
next
  case (snoc w ws)
  have "height (trieOf ws) \<le> b" using snoc by simp
  moreover have "height (insertPath (codePoints w) [] (trieOf ws)) \<le>
      max (height (trieOf ws)) (Suc (length (codePoints w)))"
    by (rule height_insertPath)
  moreover have "Suc (length (codePoints w)) \<le> b" using snoc.prems(2) by simp
  ultimately show ?case by (simp add: trieOf_def)
qed

lemma height_root:
  assumes "dictInv d" "0 < b" "\<forall>w \<in> wordsSet d. length (codePoints w) < b"
  shows "height (root d) \<le> b"
proof -
  have "shape (root d) = trieOf (wordList d)" "set (wordList d) = wordsSet d"
    using assms(1) by (simp_all add: dictInv_def)
  then have "height (shape (root d)) \<le> b"
    using height_trieOf[OF assms(2), of "wordList d"] assms(3) by simp
  then show ?thesis by (simp add: height_shape)
qed

lemma height_findNode: "findNode ks t = Some n \<Longrightarrow> height n \<le> height t"
proof (induction ks arbitrary: t)
  case Nil
  then show ?case by simp
next
  case (Cons ch rest)
  obtain cs e d where t: "t = TrieNode cs e d" by (cases t)
  from Cons.prems t obtain c where c: "map_of cs ch = Some c" "findNode rest c = Some n"
    by (auto split: option.splits)
  have "height n \<le> height c" using Cons.IH c(2) by blast
  moreover have "height c \<le> heightChildren cs" using c(1) by (rule heightChildren_map_of)
  ultimately show ?case using t by simp
qed

section \<open>Every path of the trie leads to a word\<close>

lemma findNode_new: "findNode ks newTrieNode = Some n \<Longrightarrow> ks = []"
  by (cases ks) (simp_all add: newTrieNode_def)

lemma findNode_insertPath:
  "findNode ks' (insertPath ks defn t) = Some n \<Longrightarrow> findNode ks' t \<noteq> None \<or> prefix ks' ks"
proof (induction ks arbitrary: t ks' n)
  case Nil
  then show ?case by (cases ks') (simp_all split: option.splits)
next
  case (Cons ch rest)
  show ?case
  proof (cases ks')
    case Nil
    then show ?thesis by simp
  next
    case (Cons ch' rest')
    show ?thesis
    proof (cases "ch' = ch")
      case False
      then show ?thesis using Cons Cons.prems by (simp add: update_conv' split: option.splits)
    next
      case True
      let ?child = "case map_of (children t) ch of None \<Rightarrow> newTrieNode | Some c \<Rightarrow> c"
      have "findNode rest' (insertPath rest defn ?child) = Some n"
        using True Cons Cons.prems by (simp add: update_conv')
      from Cons.IH[OF this] have "findNode rest' ?child \<noteq> None \<or> prefix rest' rest" .
      then show ?thesis
      proof
        assume "prefix rest' rest"
        then show ?thesis using True Cons by simp
      next
        assume a: "findNode rest' ?child \<noteq> None"
        show ?thesis
        proof (cases "map_of (children t) ch")
          case None
          then have "rest' = []" using a findNode_new by auto
          then show ?thesis using True Cons by simp
        next
          case (Some c)
          then show ?thesis using a True Cons by simp
        qed
      qed
    qed
  qed
qed

lemma findNode_trieOf:
  "findNode ks (trieOf ws) = Some n \<Longrightarrow> ks = [] \<or> (\<exists>w \<in> set ws. prefix ks (codePoints w))"
proof (induction ws arbitrary: n rule: rev_induct)
  case Nil
  then show ?case using findNode_new by (simp add: trieOf_def)
next
  case (snoc w ws)
  then have "findNode ks (insertPath (codePoints w) [] (trieOf ws)) = Some n"
    by (simp add: trieOf_def)
  from findNode_insertPath[OF this]
  show ?case
  proof
    assume "findNode ks (trieOf ws) \<noteq> None"
    then show ?thesis using snoc.IH by auto
  next
    assume "prefix ks (codePoints w)"
    then show ?thesis by auto
  qed
qed

lemma findNode_word:
  assumes "dictInv d" "findNode ks (root d) = Some n"
  shows "ks = [] \<or> (\<exists>w \<in> wordsSet d. prefix ks (codePoints w))"
proof -
  have sh: "shape (root d) = trieOf (wordList d)" and sl: "set (wordList d) = wordsSet d"
    using assms(1) by (simp_all add: dictInv_def)
  have "findNode ks (shape (root d)) = Some (shape n)"
    using assms(2) by (simp add: findNode_shape)
  then show ?thesis using findNode_trieOf[of ks "wordList d" "shape n"] sh sl by simp
qed

section \<open>getAutoSuggestions on the call stack\<close>

lemma getAutoSuggestionsE_cases:
  "getAutoSuggestionsE stack lc d p n = Inr (getAutoSuggestions lc d p n) \<or>
   getAutoSuggestionsE stack lc d p n = Inl RangeError"
proof (cases "findNode (codePoints (lc p)) (root d)")
  case None
  then show ?thesis
    by (simp add: getAutoSuggestionsE_def getAutoSuggestions_def findNodeE_findNode)
next
  case (Some node)
  from dfsE_cases(1)[of stack node "lc p" "[]" "n * 3"] show ?thesis
  proof
    assume "dfsE stack node (lc p) [] (n * 3) = Inr (dfs node (lc p) [] (n * 3))"
    then show ?thesis
      using Some by (simp add: getAutoSuggestionsE_def getAutoSuggestions_def findNodeE_findNode)
  next
    assume "dfsE stack node (lc p) [] (n * 3) = Inl RangeError"
    then show ?thesis
      using Some by (simp add: getAutoSuggestionsE_def findNodeE_findNode)
  qed
qed

lemma getAutoSuggestionsE_no_path:
  "findNode (codePoints (lc p)) (root d) = None \<Longrightarrow> getAutoSuggestionsE stack lc d p n = Inr []"
  by (simp add: getAutoSuggestionsE_def findNodeE_findNode)

lemma getAutoSuggestionsE_height:
  assumes "height (root d) \<le> stack"
  shows "getAutoSuggestionsE stack lc d p n = Inr (getAutoSuggestions lc d p n)"
proof (cases "findNode (codePoints (lc p)) (root d)")
  case None
  then show ?thesis
    by (simp add: getAutoSuggestionsE_def getAutoSuggestions_def findNodeE_findNode)
next
  case (Some node)
  have "height node \<le> stack" using height_findNode[OF Some] assms by simp
  then have "dfsE stack node (lc p) [] (n * 3) = Inr (dfs node (lc p) [] (n * 3))"
    by (rule dfsE_returns(1))
  then show ?thesis
    using Some by (simp add: getAutoSuggestionsE_def getAutoSuggestions_def findNodeE_findNode)
qed

lemma getAutoSuggestionsE_returns:
  assumes "dictInv d" "0 < stack" "\<forall>w \<in> wordsSet d. length (codePoints w) < stack"
  shows "getAutoSuggestionsE stack lc d p n = Inr (getAutoSuggestions lc d p n)"
  by (rule getAutoSuggestionsE_height) (rule height_root[OF assms])

lemma getAutoSuggestionsE_no_word:
  assumes inv: "dictInv d" and pos: "0 < stack" and no: "\<forall>w \<in> wordsSet d. \<not> prefix (lc p) w"
  shows "getAutoSuggestionsE stack lc d p n = Inr []"
proof (cases "findNode (codePoints (lc p)) (root d)")
  case None
  then show ?thesis by (rule getAutoSuggestionsE_no_path)
next
  case (Some node)
  have nocp: "\<not> prefix (codePoints (lc p)) (codePoints w)" if "w \<in> wordsSet d" for w
    using no that prefix_codePoints by blast
  then have "codePoints (lc p) = []" using findNode_word[OF inv Some] by blast
  then have "wordsSet d = {}" using nocp by auto
  then have "height (root d) \<le> stack"
    using height_root[OF inv, of 1] pos by simp
  then have "getAutoSuggestionsE stack lc d p n = Inr (getAutoSuggestions lc d p n)"
    by (rule getAutoSuggestionsE_height)
  moreover from getAutoSuggestions_take[OF inv, of lc p] obtain xs where xs:
    "set xs = {w \<in> wordsSet d. prefix (codePoints (lc p)) (codePoints w)}"
    "\<And>n. getAutoSuggestions lc d p n = take n xs" by blast
  have "xs = []" using xs(1) \<open>wordsSet d = {}\<close> by simp
  then have "getAutoSuggestions lc d p n = []" using xs(2) by simp
  ultimately show ?thesis by simp
qed

section \<open>One long word\<close>

lemma codePoints_plain:
  "\<forall>u \<in> set s. \<not> isHighSurrogate u \<Longrightarrow> codePoints s = map (\<lambda>u. [u]) s"
  by (induction s rule: codePoints.induct) simp_all

lemma dictionaryOf_single:
  "dictionaryOf lc [(w, defn)] =
     \<lparr>root = insertPath (codePoints (lc w)) defn newTrieNode, wordList = [lc w], wordsSet = {lc w}\<rparr>"
  by (simp add: dictionaryOf_def insertWord_def newWordDictionary_def Let_def)

lemma long_word_overflow:
  assumes "\<forall>u \<in> set (lc w). \<not> isHighSurrogate u" "lc [] = []" "stack \<le> length (lc w)" "0 < n"
  shows "getAutoSuggestionsE stack lc (dictionaryOf lc [(w, defn)]) [] n = Inl RangeError"
proof -
  have "length (codePoints (lc w)) = length (lc w)"
    using codePoints_plain[OF assms(1)] by simp
  then have "dfsE stack (insertPath (codePoints (lc w)) defn newTrieNode) [] [] (n * 3) = Inl RangeError"
    using assms(3,4) by (intro dfsE_overflow) simp_all
  then show ?thesis
    using assms(2) by (simp add: getAutoSuggestionsE_def dictionaryOf_single)
qed

section \<open>Further facts for the claims\<close>

lemma searchWordE_searchWord: "searchWordE lc d w = Inr (searchWord lc d w)"
  by (simp add: searchWordE_def searchWord_def searchFromE_searchFrom)

lemma getAutoSuggestions_results:
  assumes inv: "dictInv d" and norm: "\<forall>w \<in> wordsSet d. lc w = w"
  shows "length (getAutoSuggestions lc d p n) \<le> n"
    and "distinct (getAutoSuggestions lc d p n)"
    and "\<forall>w \<in> set (getAutoSuggestions lc d p n).
           found (searchWord lc d w) \<and> lc w = w \<and> prefix (lc p) w"
    and "(\<forall>w \<in> wordsSet d. \<not> prefix (lc p) w) \<longrightarrow> getAutoSuggestions lc d p n = []"
proof -
  from getAutoSuggestions_take[OF inv, of lc p] obtain xs where xs:
    "distinct xs" "set xs = {w \<in> wordsSet d. prefix (codePoints (lc p)) (codePoints w)}"
    "\<And>n. getAutoSuggestions lc d p n = take n xs" by blast
  show "length (getAutoSuggestions lc d p n) \<le> n" unfolding xs(3) by simp
  show "distinct (getAutoSuggestions lc d p n)" unfolding xs(3) using xs(1) by simp
  show "\<forall>w \<in> set (getAutoSuggestions lc d p n).
           found (searchWord lc d w) \<and> lc w = w \<and> prefix (lc p) w"
    unfolding xs(3)
  proof
    fix w assume "w \<in> set (take n xs)"
    then have "w \<in> set xs" by (rule in_set_takeD)
    then have w: "w \<in> wordsSet d" "prefix (codePoints (lc p)) (codePoints w)"
      unfolding xs(2) by simp_all
    have 1: "lc w = w" using norm w(1) by simp
    have 2: "found (searchFrom (codePoints w) (root d))"
      using member_iff_terminal[OF inv, of w] w(1) by blast
    have 3: "prefix (lc p) w" using w(2) by (rule prefix_codePoints)
    show "found (searchWord lc d w) \<and> lc w = w \<and> prefix (lc p) w"
      using 1 2 3 by (simp add: searchWord_def)
  qed
  show "(\<forall>w \<in> wordsSet d. \<not> prefix (lc p) w) \<longrightarrow> getAutoSuggestions lc d p n = []"
    unfolding xs(3)
  proof
    assume no: "\<forall>w \<in> wordsSet d. \<not> prefix (lc p) w"
    have "w \<notin> set xs" for w
    proof
      assume "w \<in> set xs"
      then have "w \<in> wordsSet d" "prefix (codePoints (lc p)) (codePoints w)"
        unfolding xs(2) by simp_all
      then show False using no prefix_codePoints[of "lc p" w] by simp
    qed
    then have "xs = []" by (cases xs) auto
    then show "take n xs = []" by simp
  qed
qed





section \<open>The ASCII instances of the built-ins\<close>

lemma asciiLower_not_upper: "(u::16 word) \<le> 0x5A \<Longrightarrow> 0x41 \<le> u \<Longrightarrow> \<not> (0x41 \<le> u + 0x20 \<and> u + 0x20 \<le> 0x5A)"
  by (simp add: word_le_nat_alt unat_word_ariths) 

lemma asciiLower_idem: "asciiLower (asciiLower s) = asciiLower s"
  using asciiLower_not_upper by (induction s) (auto simp: asciiLower_def)

lemma codeUnitCompare_total: "codeUnitCompare a b \<le> 0 \<or> codeUnitCompare b a \<le> 0"
  by (induction a b rule: codeUnitCompare.induct) auto

lemma codeUnitCompare_trans:
  "codeUnitCompare a b \<le> 0 \<Longrightarrow> codeUnitCompare b c \<le> 0 \<Longrightarrow> codeUnitCompare a c \<le> 0"
proof (induction a b arbitrary: c rule: codeUnitCompare.induct)
  case 1
  then show ?case by simp
next
  case (2 y ys)
  then show ?case by (cases c) simp_all
next
  case (3 x xs)
  then show ?case by simp
next
  case (4 x xs y ys)
  then show ?case by (cases c) (auto split: if_splits)
qed

lemma asciiLower_replicate:
  "\<not> (0x41 \<le> u \<and> u \<le> 0x5A) \<Longrightarrow> asciiLower (replicate k u) = replicate k u"
  by (auto simp: asciiLower_def)

lemma asciiLower_long_word:
  assumes "0 < n" "\<not> (0x41 \<le> u \<and> u \<le> 0x5A)" "\<not> isHighSurrogate u"
  shows "getAutoSuggestionsE k asciiLower (dictionaryOf asciiLower [(replicate k u, defn)]) [] n =
           Inl RangeError"
proof (rule long_word_overflow)
  show "\<forall>v \<in> set (asciiLower (replicate k u)). \<not> isHighSurrogate v"
    using assms(3) by (simp add: asciiLower_replicate[OF assms(2)])
  show "asciiLower [] = []" by (simp add: asciiLower_def)
  show "k \<le> length (asciiLower (replicate k u))"
    by (simp add: asciiLower_replicate[OF assms(2)])
  show "0 < n" by (rule assms(1))
qed

section \<open>The claims\<close>

text \<open>
  Claim C1. Every sequence of insert calls on a fresh dictionary returns normally; after
  it, the lookup of every inserted word finds it, with the definition that the update
  semantics give its normalized form, and the word sequence has no duplicate. One more
  insert call returns normally; the lookup of its word then gives the definition passed,
  except when the word was present and the definition passed is empty: then the call
  leaves the state as it was.
\<close>

theorem lookup_after_inserts:
  shows "\<exists>d. insertAll lc newWordDictionary ops = Inr d \<and>
           ((\<forall>p \<in> set ops. \<exists>x. expectedDefinitions lc ops (lc (fst p)) = Some x \<and>
               searchWord lc d (fst p) = \<lparr>found = True, resultDefinition = x\<rparr>) \<and>
            distinct (wordList d) \<and>
            (\<forall>w defn. \<exists>d'. insertWord lc d w defn = Inr d' \<and> distinct (wordList d') \<and>
               searchWord lc d' w =
                 \<lparr>found = True,
                  resultDefinition = (if lc w \<in> wordsSet d \<and> defn = []
                                      then resultDefinition (searchWord lc d w) else defn)\<rparr> \<and>
               (lc w \<in> wordsSet d \<and> defn = [] \<longrightarrow> d' = d)))"
    (is "\<exists>d. _ \<and> ?C d")
proof -
  define d where "d = dictionaryOf lc ops"
  have reach: "insertAll lc newWordDictionary ops = Inr d"
    unfolding d_def by (rule insertAll_dictionaryOf)
  have main: "?C d"
  proof -
    note inv = reachable_inv[OF reach]
    have 1: "\<exists>x. expectedDefinitions lc ops (lc (fst p)) = Some x \<and>
              searchWord lc d (fst p) = \<lparr>found = True, resultDefinition = x\<rparr>" if "p \<in> set ops" for p
    proof -
      have "lc (fst p) \<in> dom (expectedDefinitions lc ops)"
        using inv(2,4) that by (auto simp: agrees_def)
      then obtain x where "expectedDefinitions lc ops (lc (fst p)) = Some x" by blast
      then show ?thesis using inv(2) by (auto simp: agrees_def searchWord_def)
    qed
    have 2: "distinct (wordList d)" using inv(1) by (simp add: dictInv_def)
    have 3: "\<exists>d'. insertWord lc d w defn = Inr d' \<and> distinct (wordList d') \<and>
              searchWord lc d' w =
                \<lparr>found = True,
                 resultDefinition = (if lc w \<in> wordsSet d \<and> defn = []
                                     then resultDefinition (searchWord lc d w) else defn)\<rparr> \<and>
              (lc w \<in> wordsSet d \<and> defn = [] \<longrightarrow> d' = d)" for w defn
      using insertWord_step[OF inv(1), of lc w defn] by (auto simp: searchWord_def dictInv_def)
    show ?thesis using 1 2 3 by blast
  qed
  show ?thesis by (rule exI[of _ d]) (rule conjI[OF reach main])
qed

theorem lookup_after_inserts_witness:
  "\<exists>d. insertAll asciiLower newWordDictionary
          [(str ''Cat'', str ''a pet''), (str ''cat'', []), (str ''CAT'', str ''feline'')] = Inr d \<and>
        searchWord asciiLower d (str ''Cat'') = \<lparr>found = True, resultDefinition = str ''feline''\<rparr> \<and>
        distinct (wordList d)"
proof -
  let ?ops = "[(str ''Cat'', str ''a pet''), (str ''cat'', []), (str ''CAT'', str ''feline'')]"
  have d: "insertAll asciiLower newWordDictionary ?ops = Inr (dictionaryOf asciiLower ?ops)"
    by (rule insertAll_dictionaryOf)
  have e: "expectedDefinitions asciiLower ?ops (asciiLower (str ''Cat'')) = Some (str ''feline'')"
    by code_simp
  from reachable_exE[OF lookup_after_inserts[where lc = asciiLower and ops = ?ops]] e
  have "searchWord asciiLower (dictionaryOf asciiLower ?ops) (str ''Cat'') =
          \<lparr>found = True, resultDefinition = str ''feline''\<rparr>"
    "distinct (wordList (dictionaryOf asciiLower ?ops))"
    by auto
  then show ?thesis using d by blast
qed

text \<open>
  Claim C6. Every sequence of insert calls on the fresh dictionary returns normally, and
  in the state it reaches: a string is in the word set exactly when consuming its
  characters from the root reaches a terminal node; the word set and the word sequence
  hold the same words, which are the normalized words inserted; and the word sequence
  lists each of them once, in the order of their first insertion.
\<close>

theorem reachable_state_invariants:
  shows "\<exists>d. insertAll lc newWordDictionary ops = Inr d \<and>
           ((\<forall>w. w \<in> wordsSet d \<longleftrightarrow>
               (\<exists>n. findNode (codePoints w) (root d) = Some n \<and> isEndOfWord n)) \<and>
            set (wordList d) = wordsSet d \<and>
            wordsSet d = (\<lambda>p. lc (fst p)) ` set ops \<and>
            distinct (wordList d) \<and>
            wordList d = newSet [] (map (\<lambda>p. lc (fst p)) ops))"
    (is "\<exists>d. _ \<and> ?C d")
proof -
  define d where "d = dictionaryOf lc ops"
  have reach: "insertAll lc newWordDictionary ops = Inr d"
    unfolding d_def by (rule insertAll_dictionaryOf)
  have main: "?C d"
  proof -
    note inv = reachable_inv[OF reach]
    have "\<forall>w. w \<in> wordsSet d \<longleftrightarrow> (\<exists>n. findNode (codePoints w) (root d) = Some n \<and> isEndOfWord n)"
      using member_iff_terminal[OF inv(1)] by (simp add: found_iff_findNode)
    then show ?thesis using inv by (simp add: dictInv_def)
  qed
  show ?thesis by (rule exI[of _ d]) (rule conjI[OF reach main])
qed

theorem reachable_state_invariants_witness:
  "\<exists>d. insertAll asciiLower newWordDictionary
          [(str ''cat'', []), (str ''Dog'', str ''a pet''), (str ''CAT'', [])] = Inr d \<and>
        wordList d = [str ''cat'', str ''dog''] \<and> wordsSet d = {str ''cat'', str ''dog''} \<and>
        (\<exists>n. findNode (codePoints (str ''dog'')) (root d) = Some n \<and> isEndOfWord n)"
proof -
  let ?ops = "[(str ''cat'', []), (str ''Dog'', str ''a pet''), (str ''CAT'', [])]"
  have d: "insertAll asciiLower newWordDictionary ?ops = Inr (dictionaryOf asciiLower ?ops)"
    by (rule insertAll_dictionaryOf)
  have l: "newSet [] (map (\<lambda>p. asciiLower (fst p)) ?ops) = [str ''cat'', str ''dog'']"
    by code_simp
  have s: "(\<lambda>p. asciiLower (fst p)) ` set ?ops = {str ''cat'', str ''dog''}"
    by (auto simp: asciiLower_def str_def)
  from reachable_exE[OF reachable_state_invariants[where lc = asciiLower and ops = ?ops]] l s
  have "wordList (dictionaryOf asciiLower ?ops) = [str ''cat'', str ''dog'']"
    "wordsSet (dictionaryOf asciiLower ?ops) = {str ''cat'', str ''dog''}"
    "\<exists>n. findNode (codePoints (str ''dog'')) (root (dictionaryOf asciiLower ?ops)) = Some n \<and> isEndOfWord n"
    by auto
  then show ?thesis using d by blast
qed

text \<open>
  One word of 10000 letters \<open>a\<close>, and a call stack with room for 10000 nested activations
  of \<open>#dfs\<close>: a call is needed for the root and for each letter, and the last one throws.
  The same holds for every number in place of 10000 (\<open>asciiLower_long_word\<close>).
\<close>

theorem suggestions_overflow_counterexample:
  "getAutoSuggestionsE 10000 asciiLower
     (dictionaryOf asciiLower [(replicate 10000 0x61, [])]) [] 10 = Inl RangeError"
  by (rule asciiLower_long_word) (simp_all add: isHighSurrogate_def)

text \<open>
  Claim C2, as the code has it. On every dictionary built by insertions, for every prefix
  and every bound, \<open>getAutoSuggestions\<close> either returns or throws the \<open>RangeError\<close> of a
  call stack that the recursion of \<open>#dfs\<close> has filled, and it returns whenever the call
  stack has room for more nested activations than the longest stored word has characters.
  What it returns has at most \<open>maxSuggestions\<close> words and none twice; each of them is
  found by \<open>searchWord\<close>, which returns normally, is in normalized form and starts with
  the normalized prefix. When no stored word starts with the normalized prefix, and in
  particular when the prefix is not a path of the trie, it returns the empty sequence. The
  built-in \<open>toLowerCase\<close> is taken to be idempotent.
\<close>

theorem suggestions_contract:
  assumes "\<forall>s. lc (lc s) = lc s"
  shows "\<exists>d. insertAll lc newWordDictionary ops = Inr d \<and>
           ((getAutoSuggestionsE stack lc d p n = Inr (getAutoSuggestions lc d p n) \<or>
             getAutoSuggestionsE stack lc d p n = Inl RangeError) \<and>
            (0 < stack \<and> (\<forall>w \<in> wordsSet d. length (codePoints w) < stack) \<longrightarrow>
               getAutoSuggestionsE stack lc d p n = Inr (getAutoSuggestions lc d p n)) \<and>
            length (getAutoSuggestions lc d p n) \<le> n \<and>
            distinct (getAutoSuggestions lc d p n) \<and>
            (\<forall>w \<in> set (getAutoSuggestions lc d p n).
               searchWordE lc d w = Inr (searchWord lc d w) \<and>
               found (searchWord lc d w) \<and> lc w = w \<and> prefix (lc p) w) \<and>
            ((\<forall>w \<in> wordsSet d. \<not> prefix (lc p) w) \<longrightarrow>
               getAutoSuggestions lc d p n = [] \<and>
               (0 < stack \<longrightarrow> getAutoSuggestionsE stack lc d p n = Inr [])) \<and>
            (findNode (codePoints (lc p)) (root d) = None \<longrightarrow>
               getAutoSuggestionsE stack lc d p n = Inr []))"
    (is "\<exists>d. _ \<and> ?C d")
proof -
  define d where "d = dictionaryOf lc ops"
  have reach: "insertAll lc newWordDictionary ops = Inr d"
    unfolding d_def by (rule insertAll_dictionaryOf)
  note inv = reachable_inv[OF reach]
  have norm: "\<forall>w \<in> wordsSet d. lc w = w"
    using inv(4) assms by auto
  note res = getAutoSuggestions_results[OF inv(1) norm, of p n]
  have 1: "getAutoSuggestionsE stack lc d p n = Inr (getAutoSuggestions lc d p n) \<or>
             getAutoSuggestionsE stack lc d p n = Inl RangeError"
    by (rule getAutoSuggestionsE_cases)
  have 2: "0 < stack \<and> (\<forall>w \<in> wordsSet d. length (codePoints w) < stack) \<longrightarrow>
               getAutoSuggestionsE stack lc d p n = Inr (getAutoSuggestions lc d p n)"
    using getAutoSuggestionsE_returns[OF inv(1), of stack lc p n] by blast
  have 5: "\<forall>w \<in> set (getAutoSuggestions lc d p n).
               searchWordE lc d w = Inr (searchWord lc d w) \<and>
               found (searchWord lc d w) \<and> lc w = w \<and> prefix (lc p) w"
    using res(3) by (simp add: searchWordE_searchWord)
  have 6: "(\<forall>w \<in> wordsSet d. \<not> prefix (lc p) w) \<longrightarrow>
               getAutoSuggestions lc d p n = [] \<and>
               (0 < stack \<longrightarrow> getAutoSuggestionsE stack lc d p n = Inr [])"
    using res(4) getAutoSuggestionsE_no_word[OF inv(1), of stack lc p n] by blast
  have 7: "findNode (codePoints (lc p)) (root d) = None \<longrightarrow>
               getAutoSuggestionsE stack lc d p n = Inr []"
    using getAutoSuggestionsE_no_path[of lc p d stack n] by blast
  have main: "?C d" by (intro conjI 1 2 res(1) res(2) 5 6 7)
  show ?thesis by (rule exI[of _ d]) (rule conjI[OF reach main])
qed

theorem suggestions_contract_witness:
  "\<exists>d. insertAll asciiLower newWordDictionary scenarioA = Inr d \<and>
        (\<forall>s. asciiLower (asciiLower s) = asciiLower s) \<and>
        (0::nat) < 6 \<and> length (codePoints (str ''apple'')) < 6 \<and>
        getAutoSuggestionsE 6 asciiLower d (str ''APP'') 2 = Inr [str ''app'', str ''apple''] \<and>
        searchWordE asciiLower d (str ''apple'') =
          Inr \<lparr>found = True, resultDefinition = str ''a fruit''\<rparr> \<and>
        prefix (asciiLower (str ''APP'')) (str ''apple'') \<and>
        getAutoSuggestionsE 6 asciiLower d (str ''b'') 2 = Inr []"
proof -
  let ?d = "dictionaryOf asciiLower scenarioA"
  have d: "insertAll asciiLower newWordDictionary scenarioA = Inr ?d"
    by (rule insertAll_dictionaryOf)
  have idem: "\<forall>s. asciiLower (asciiLower s) = asciiLower s"
    by (simp add: asciiLower_idem)
  have r: "getAutoSuggestions asciiLower ?d (str ''APP'') 2 = [str ''app'', str ''apple'']"
    unfolding scenarioA_def by code_simp
  have ws: "wordsSet ?d = {str ''apple'', str ''apply'', str ''app''}"
    using reachable_inv(4)[OF d] by (auto simp: scenarioA_def asciiLower_def str_def)
  have short: "\<forall>w \<in> wordsSet ?d. length (codePoints w) < 6"
    unfolding ws by (simp add: str_def isHighSurrogate_def)
  have b: "findNode (codePoints (asciiLower (str ''b''))) (root ?d) = None"
    unfolding scenarioA_def by code_simp
  have s: "searchWord asciiLower ?d (str ''apple'') = \<lparr>found = True, resultDefinition = str ''a fruit''\<rparr>"
    unfolding scenarioA_def by code_simp
  note t = reachable_exE[OF suggestions_contract[where lc = asciiLower and ops = scenarioA
        and p = "str ''APP''" and n = 2 and stack = 6, OF idem]]
  note u = reachable_exE[OF suggestions_contract[where lc = asciiLower and ops = scenarioA
        and p = "str ''b''" and n = 2 and stack = 6, OF idem]]
  have 1: "getAutoSuggestionsE 6 asciiLower ?d (str ''APP'') 2 = Inr [str ''app'', str ''apple'']"
    using t short r by simp
  have 2: "searchWordE asciiLower ?d (str ''apple'') =
          Inr \<lparr>found = True, resultDefinition = str ''a fruit''\<rparr>"
    "prefix (asciiLower (str ''APP'')) (str ''apple'')"
    using t r s by simp_all
  have 3: "getAutoSuggestionsE 6 asciiLower ?d (str ''b'') 2 = Inr []"
    using u b by blast
  have 4: "(0::nat) < 6" "length (codePoints (str ''apple'')) < 6"
    by (simp_all add: str_def isHighSurrogate_def)
  show ?thesis
    by (rule exI[of _ ?d]) (intro conjI d idem 4 1 2 3)
qed

text \<open>
  One stored word, an emoji (the surrogate pair D83D DE00) followed by \<open>a\<close>, and the prefix
  made of the high surrogate D83D alone. The word starts with the prefix as a string, so
  \<open>N = 1\<close>; the trie has the pair as one key, the walk does not find the lone surrogate
  and no word is returned.
\<close>

theorem suggestions_count_counterexample:
  "wordList (dictionaryOf asciiLower [([0xD83D, 0xDE00, 0x61], [])]) = [[0xD83D, 0xDE00, 0x61]] \<and>
   asciiLower [0xD83D] = [0xD83D] \<and>
   prefix [0xD83D] [0xD83D, 0xDE00, 0x61 :: 16 word] \<and>
   getAutoSuggestions asciiLower (dictionaryOf asciiLower [([0xD83D, 0xDE00, 0x61], [])])
     [0xD83D] 5 = [] \<and>
   getAutoSuggestionsE 5 asciiLower (dictionaryOf asciiLower [([0xD83D, 0xDE00, 0x61], [])])
     [0xD83D] 5 = Inr []"
proof -
  have 1: "wordList (dictionaryOf asciiLower [([0xD83D, 0xDE00, 0x61], [])]) =
      [[0xD83D, 0xDE00, 0x61]]"
    by code_simp
  have 2: "asciiLower [0xD83D] = [0xD83D]" by code_simp
  have 3: "prefix [0xD83D] [0xD83D, 0xDE00, 0x61 :: 16 word]" by simp
  have 4: "getAutoSuggestions asciiLower (dictionaryOf asciiLower [([0xD83D, 0xDE00, 0x61], [])])
     [0xD83D] 5 = []"
    by code_simp
  have 5: "getAutoSuggestionsE 5 asciiLower (dictionaryOf asciiLower [([0xD83D, 0xDE00, 0x61], [])])
     [0xD83D] 5 = Inr []"
    by code_simp
  show ?thesis by (intro conjI 1 2 3 4 5)
qed

text \<open>
  Claim C9, as the code has it. On every dictionary built by insertions,
  \<open>getAutoSuggestions\<close> either throws the \<open>RangeError\<close> of a full call stack or returns, and
  it returns whenever the call stack has room for more nested activations of \<open>#dfs\<close> than
  the longest stored word has characters. What it returns has exactly
  \<open>min(maxSuggestions, N)\<close> words, where \<open>N\<close> is the number of stored words whose
  characters, as the trie reads them (code points), begin with the characters of the
  normalized prefix: neither the cap of \<open>maxSuggestions * 3\<close> nor the deduplication loses a
  completion. For a normalized prefix that does not end in a high surrogate, \<open>N\<close> is the
  number of stored words that start with it as strings.
\<close>

theorem suggestions_count:
  shows "\<exists>d. insertAll lc newWordDictionary ops = Inr d \<and>
           ((getAutoSuggestionsE stack lc d p n = Inr (getAutoSuggestions lc d p n) \<or>
             getAutoSuggestionsE stack lc d p n = Inl RangeError) \<and>
            (0 < stack \<and> (\<forall>w \<in> wordsSet d. length (codePoints w) < stack) \<longrightarrow>
               getAutoSuggestionsE stack lc d p n = Inr (getAutoSuggestions lc d p n)) \<and>
            length (getAutoSuggestions lc d p n) =
              min n (card {w \<in> wordsSet d. prefix (codePoints (lc p)) (codePoints w)}) \<and>
            (lc p = [] \<or> \<not> isHighSurrogate (last (lc p)) \<longrightarrow>
               length (getAutoSuggestions lc d p n) = min n (card {w \<in> wordsSet d. prefix (lc p) w})))"
    (is "\<exists>d. _ \<and> ?C d")
proof -
  define d where "d = dictionaryOf lc ops"
  have reach: "insertAll lc newWordDictionary ops = Inr d"
    unfolding d_def by (rule insertAll_dictionaryOf)
  have main: "?C d"
  proof -
    note inv = reachable_inv[OF reach]
    from getAutoSuggestions_take[OF inv(1), of lc p] obtain xs where xs:
      "distinct xs" "set xs = {w \<in> wordsSet d. prefix (codePoints (lc p)) (codePoints w)}"
      "\<And>n. getAutoSuggestions lc d p n = take n xs" by blast
    have "length xs = card {w \<in> wordsSet d. prefix (codePoints (lc p)) (codePoints w)}"
      using xs(1,2) distinct_card by metis
    then have 1: "length (getAutoSuggestions lc d p n) =
             min n (card {w \<in> wordsSet d. prefix (codePoints (lc p)) (codePoints w)})"
      using xs(3) by (simp add: min.commute)
    have "{w \<in> wordsSet d. prefix (codePoints (lc p)) (codePoints w)} = {w \<in> wordsSet d. prefix (lc p) w}"
      if "lc p = [] \<or> \<not> isHighSurrogate (last (lc p))"
      using prefix_codePoints_iff[OF that] by simp
    then have 2: "lc p = [] \<or> \<not> isHighSurrogate (last (lc p)) \<longrightarrow>
        length (getAutoSuggestions lc d p n) = min n (card {w \<in> wordsSet d. prefix (lc p) w})"
      using 1 by simp
    have 3: "getAutoSuggestionsE stack lc d p n = Inr (getAutoSuggestions lc d p n) \<or>
             getAutoSuggestionsE stack lc d p n = Inl RangeError"
      by (rule getAutoSuggestionsE_cases)
    have 4: "0 < stack \<and> (\<forall>w \<in> wordsSet d. length (codePoints w) < stack) \<longrightarrow>
               getAutoSuggestionsE stack lc d p n = Inr (getAutoSuggestions lc d p n)"
      using getAutoSuggestionsE_returns[OF inv(1), of stack lc p n] by blast
    show ?thesis by (intro conjI 3 4 1 2)
  qed
  show ?thesis by (rule exI[of _ d]) (rule conjI[OF reach main])
qed

theorem suggestions_count_witness:
  "\<exists>d. insertAll asciiLower newWordDictionary scenarioA = Inr d \<and>
        (0::nat) < 6 \<and> length (codePoints (str ''apple'')) < 6 \<and>
        (\<exists>r. getAutoSuggestionsE 6 asciiLower d (str ''appl'') 1 = Inr r \<and> length r = 1) \<and>
        (\<exists>r. getAutoSuggestionsE 6 asciiLower d (str ''appl'') 5 = Inr r \<and> length r = 2) \<and>
        \<not> isHighSurrogate (last (asciiLower (str ''appl''))) \<and>
        card {w \<in> wordsSet d. prefix (asciiLower (str ''appl'')) w} = 2"
proof -
  let ?d = "dictionaryOf asciiLower scenarioA"
  have d: "insertAll asciiLower newWordDictionary scenarioA = Inr ?d"
    by (rule insertAll_dictionaryOf)
  have h: "\<not> isHighSurrogate (last (asciiLower (str ''appl'')))"
    by code_simp
  have l5: "length (getAutoSuggestions asciiLower ?d (str ''appl'') 5) = 2"
    unfolding scenarioA_def by code_simp
  have l1: "length (getAutoSuggestions asciiLower ?d (str ''appl'') 1) = 1"
    unfolding scenarioA_def by code_simp
  have ws: "wordsSet ?d = {str ''apple'', str ''apply'', str ''app''}"
    using reachable_inv(4)[OF d] by (auto simp: scenarioA_def asciiLower_def str_def)
  have short: "\<forall>w \<in> wordsSet ?d. length (codePoints w) < 6"
    unfolding ws by (simp add: str_def isHighSurrogate_def)
  note t5 = reachable_exE[OF suggestions_count[where lc = asciiLower and ops = scenarioA
        and p = "str ''appl''" and n = 5 and stack = 6]]
  note t1 = reachable_exE[OF suggestions_count[where lc = asciiLower and ops = scenarioA
        and p = "str ''appl''" and n = 1 and stack = 6]]
  have c: "card {w \<in> wordsSet ?d. prefix (asciiLower (str ''appl'')) w} = 2"
    using t5 h l5 by (simp add: min_def split: if_splits)
  have e5: "\<exists>r. getAutoSuggestionsE 6 asciiLower ?d (str ''appl'') 5 = Inr r \<and> length r = 2"
    using t5 short l5 by simp
  have e1: "\<exists>r. getAutoSuggestionsE 6 asciiLower ?d (str ''appl'') 1 = Inr r \<and> length r = 1"
    using t1 short l1 by simp
  have 4: "(0::nat) < 6" "length (codePoints (str ''apple'')) < 6"
    by (simp_all add: str_def isHighSurrogate_def)
  show ?thesis
    by (rule exI[of _ ?d]) (intro conjI d 4 e1 e5 h c)
qed

text \<open>
  Claim C4, as the code has it. \<open>#dfs\<close> visits the children of a node in the order of the
  node's \<open>Map\<close>, the order in which the edges were created. Two dictionaries built by
  insertions whose word sequences are equal (the same normalized words, first inserted in
  the same order; definitions and repeated insertions do not matter) give the same
  suggestions for the same prefix and bound.
\<close>

theorem suggestions_determined_by_wordList:
  "\<exists>d1 d2. insertAll lc newWordDictionary opsA = Inr d1 \<and>
           insertAll lc newWordDictionary opsB = Inr d2 \<and>
           (wordList d1 = wordList d2 \<longrightarrow>
              getAutoSuggestions lc d1 p n = getAutoSuggestions lc d2 p n)"
proof -
  define d1 where "d1 = dictionaryOf lc opsA"
  define d2 where "d2 = dictionaryOf lc opsB"
  have r1: "insertAll lc newWordDictionary opsA = Inr d1"
    unfolding d1_def by (rule insertAll_dictionaryOf)
  have r2: "insertAll lc newWordDictionary opsB = Inr d2"
    unfolding d2_def by (rule insertAll_dictionaryOf)
  have sh: "shape (root d1) = trieOf (wordList d1)" "shape (root d2) = trieOf (wordList d2)"
    using reachable_inv(1)[OF r1] reachable_inv(1)[OF r2] by (simp_all add: dictInv_def)
  have "getAutoSuggestions lc d1 p n = getAutoSuggestions lc d2 p n" if "wordList d1 = wordList d2"
    by (rule suggestions_same_shape) (use sh that in simp)
  then show ?thesis using r1 r2 by blast
qed

theorem suggestions_determined_by_wordList_witness:
  "\<exists>d1 d2.
     insertAll asciiLower newWordDictionary
       [(str ''b'', str ''x''), (str ''a'', []), (str ''B'', str ''y'')] = Inr d1 \<and>
     insertAll asciiLower newWordDictionary [(str ''B'', []), (str ''A'', str ''z'')] = Inr d2 \<and>
     wordList d1 = wordList d2 \<and>
     getAutoSuggestions asciiLower d1 [] 10 = [str ''b'', str ''a''] \<and>
     getAutoSuggestions asciiLower d2 [] 10 = [str ''b'', str ''a'']"
proof -
  let ?ops1 = "[(str ''b'', str ''x''), (str ''a'', []), (str ''B'', str ''y'')]"
  let ?ops2 = "[(str ''B'', []), (str ''A'', str ''z'')]"
  have d1: "insertAll asciiLower newWordDictionary ?ops1 = Inr (dictionaryOf asciiLower ?ops1)"
    by (rule insertAll_dictionaryOf)
  have d2: "insertAll asciiLower newWordDictionary ?ops2 = Inr (dictionaryOf asciiLower ?ops2)"
    by (rule insertAll_dictionaryOf)
  have wl: "wordList (dictionaryOf asciiLower ?ops1) = wordList (dictionaryOf asciiLower ?ops2)"
    by code_simp
  have r: "getAutoSuggestions asciiLower (dictionaryOf asciiLower ?ops1) [] 10 = [str ''b'', str ''a'']"
    by code_simp
  from suggestions_determined_by_wordList[where lc = asciiLower and opsA = ?ops1 and opsB = ?ops2
      and p = "[]" and n = 10]
  obtain e1 e2 where e: "insertAll asciiLower newWordDictionary ?ops1 = Inr e1"
    "insertAll asciiLower newWordDictionary ?ops2 = Inr e2"
    "wordList e1 = wordList e2 \<longrightarrow>
       getAutoSuggestions asciiLower e1 [] 10 = getAutoSuggestions asciiLower e2 [] 10"
    by (elim exE conjE) (rule that; assumption)
  have "e1 = dictionaryOf asciiLower ?ops1" "e2 = dictionaryOf asciiLower ?ops2"
    using e(1,2) d1 d2 by simp_all
  then have "getAutoSuggestions asciiLower (dictionaryOf asciiLower ?ops2) [] 10 = [str ''b'', str ''a'']"
    using e(3) wl r by simp
  then show ?thesis using d1 d2 wl r by blast
qed

text \<open>
  The same set of words inserted in two orders: the suggestions for the empty prefix come
  in the order of insertion, \<open>["b", "a"]\<close> and \<open>["a", "b"]\<close>.
\<close>

theorem suggestions_order_counterexample:
  "wordsSet (dictionaryOf asciiLower [(str ''b'', []), (str ''a'', [])]) =
     wordsSet (dictionaryOf asciiLower [(str ''a'', []), (str ''b'', [])]) \<and>
   getAutoSuggestions asciiLower (dictionaryOf asciiLower [(str ''b'', []), (str ''a'', [])]) [] 10 =
     [str ''b'', str ''a''] \<and>
   getAutoSuggestions asciiLower (dictionaryOf asciiLower [(str ''a'', []), (str ''b'', [])]) [] 10 =
     [str ''a'', str ''b'']"
proof -
  have 1: "wordsSet (dictionaryOf asciiLower [(str ''b'', []), (str ''a'', [])]) = {str ''b'', str ''a''}"
    by code_simp
  have 2: "wordsSet (dictionaryOf asciiLower [(str ''a'', []), (str ''b'', [])]) = {str ''a'', str ''b''}"
    by code_simp
  have 3: "getAutoSuggestions asciiLower (dictionaryOf asciiLower [(str ''b'', []), (str ''a'', [])]) [] 10 =
     [str ''b'', str ''a'']"
    by code_simp
  have 4: "getAutoSuggestions asciiLower (dictionaryOf asciiLower [(str ''a'', []), (str ''b'', [])]) [] 10 =
     [str ''a'', str ''b'']"
    by code_simp
  show ?thesis using 1 2 3 4 by auto
qed

text \<open>
  The distance that \<open>getSpellingCorrections\<close> bounds is the one from the lower-cased
  query. With the dictionary holding only \<open>"ac"\<close>, the query \<open>"AB"\<close> and \<open>maxDistance = 1\<close>
  the result is \<open>["ac"]\<close> (\<open>"ab"\<close> is at distance 1), while \<open>editDistance("AB", "ac")\<close> is 2.
\<close>

theorem corrections_distance_counterexample:
  "getSpellingCorrections asciiLower codeUnitCompare
     (dictionaryOf asciiLower [(str ''ac'', [])]) (str ''AB'') 1 5 = Inr [str ''ac''] \<and>
   editDistance (str ''AB'') (str ''ac'') = Inr 2"
proof -
  have 1: "getSpellingCorrections asciiLower codeUnitCompare
     (dictionaryOf asciiLower [(str ''ac'', [])]) (str ''AB'') 1 5 = Inr [str ''ac'']"
    by code_simp
  have 2: "editDistance (str ''AB'') (str ''ac'') = Inr 2"
    by code_simp
  show ?thesis using 1 2 by (rule conjI)
qed

text \<open>
  Claim C3, as the code has it. On every dictionary built by insertions, for every query,
  every \<open>maxDistance\<close> and every \<open>maxSuggestions > 0\<close>, \<open>getSpellingCorrections\<close> returns
  normally; the normalized query is not among the results; every result \<open>w\<close> is a stored
  word with \<open>0 < editDistance(lowerWord, w) \<le> maxDistance\<close>, where \<open>lowerWord\<close> is the
  lower-cased query; the results are in ascending order of that distance, ties in the
  order of \<open>localeCompare\<close>; no word is repeated; and there are at most \<open>maxSuggestions\<close>
  of them. The built-in \<open>localeCompare\<close> is taken to be a total preorder.
\<close>

theorem corrections_contract:
  assumes "0 < maxS"
    and "\<forall>a b. cmp a b \<le> 0 \<or> cmp b a \<le> 0"
    and "\<forall>a b c. cmp a b \<le> 0 \<and> cmp b c \<le> 0 \<longrightarrow> cmp a c \<le> 0"
  shows "\<exists>d. insertAll lc newWordDictionary ops = Inr d \<and>
           (\<exists>r. getSpellingCorrections lc cmp d q maxD maxS = Inr r \<and>
             lc q \<notin> set r \<and>
             (\<forall>w \<in> set r. w \<in> wordsSet d \<and>
                (\<exists>k. editDistance (lc q) w = Inr k \<and> 0 < k \<and> k \<le> maxD)) \<and>
             sorted_wrt (\<lambda>a b. \<exists>ka kb. editDistance (lc q) a = Inr ka \<and> editDistance (lc q) b = Inr kb \<and>
                           (ka < kb \<or> (ka = kb \<and> cmp a b \<le> 0))) r \<and>
             distinct r \<and> length r \<le> maxS)"
    (is "\<exists>d. _ \<and> ?C d")
proof -
  define d where "d = dictionaryOf lc ops"
  have reach: "insertAll lc newWordDictionary ops = Inr d"
    unfolding d_def by (rule insertAll_dictionaryOf)
  have main: "?C d"
  proof -
    note inv = reachable_inv[OF reach]
    have dl: "distinct (wordList d)" and sl: "set (wordList d) = wordsSet d"
      using inv(1) by (simp_all add: dictInv_def)
    let ?dist = "\<lambda>w. lev (lc q) w (length (lc q)) (length w)"
    let ?mk = "\<lambda>w. \<lparr>word = w, distance = ?dist w\<rparr>"
    let ?ok = "\<lambda>w. 0 < ?dist w \<and> ?dist w \<le> maxD"
    let ?cs = "map ?mk (filter ?ok (wordList d))"
    let ?S = "arraySort (compareCandidates cmp) ?cs"
    let ?r = "map word (take maxS ?S)"
    let ?R = "\<lambda>a b. \<exists>ka kb. editDistance (lc q) a = Inr ka \<and> editDistance (lc q) b = Inr kb \<and>
                          (ka < kb \<or> (ka = kb \<and> cmp a b \<le> 0))"
    have res: "getSpellingCorrections lc cmp d q maxD maxS = Inr ?r"
      by (rule getSpellingCorrections_sorted[OF dl assms(1)])
    have words: "map word ?cs = filter ?ok (wordList d)" by (simp add: comp_def)
    have inS: "x \<in> set ?S \<Longrightarrow> ?ok (word x) \<and> word x \<in> wordsSet d \<and> distance x = ?dist (word x)" for x
    proof -
      assume "x \<in> set ?S"
      then have "x \<in> set ?cs" by (simp only: set_arraySort)
      then obtain w where w: "w \<in> set (wordList d)" "?ok w" "x = ?mk w" by auto
      have "word x = w" "distance x = ?dist w" using w(3) by simp_all
      then show ?thesis using w(1,2) sl by simp
    qed
    have mem: "w \<in> wordsSet d \<and> ?ok w" if "w \<in> set ?r" for w
    proof -
      from that obtain x where "x \<in> set (take maxS ?S)" "w = word x" by auto
      then show ?thesis using inS[of x] by (auto dest: in_set_takeD)
    qed
    have 1: "lc q \<notin> set ?r"
    proof
      assume "lc q \<in> set ?r"
      then have "0 < ?dist (lc q)" using mem by blast
      then show False by (simp add: lev_same)
    qed
    have 2: "\<forall>w \<in> set ?r. w \<in> wordsSet d \<and> (\<exists>k. editDistance (lc q) w = Inr k \<and> 0 < k \<and> k \<le> maxD)"
    proof
      fix w assume "w \<in> set ?r"
      from mem[OF this] show "w \<in> wordsSet d \<and> (\<exists>k. editDistance (lc q) w = Inr k \<and> 0 < k \<and> k \<le> maxD)"
        by (simp add: editDistance_lev)
    qed
    have "sorted_wrt (\<lambda>a b. compareCandidates cmp a b \<le> 0) ?S"
      by (rule sorted_arraySort)
        (use compareCandidates_total[OF assms(2)] compareCandidates_trans[OF assms(3)] in blast)+
    then have "sorted_wrt (\<lambda>a b. compareCandidates cmp a b \<le> 0) (take maxS ?S)"
      by (rule sorted_wrt_take)
    then have "sorted_wrt (\<lambda>x y. ?R (word x) (word y)) (take maxS ?S)"
    proof (rule sorted_wrt_mono_rel[rotated])
      fix x y assume xy: "x \<in> set (take maxS ?S)" "y \<in> set (take maxS ?S)"
        "compareCandidates cmp x y \<le> 0"
      have "distance x = ?dist (word x)" "distance y = ?dist (word y)"
        using xy(1,2) inS by (blast dest: in_set_takeD)+
      then show "?R (word x) (word y)"
        using xy(3) by (simp add: compareCandidates_le editDistance_lev)
    qed
    then have 3: "sorted_wrt ?R ?r" by (simp add: sorted_wrt_map)
    have "distinct (map word ?S)"
      using dl words by (simp only: distinct_map_arraySort) simp
    then have 4: "distinct ?r" by (simp add: take_map[symmetric] del: take_map)
    have 5: "length ?r \<le> maxS" by simp
    show ?thesis by (rule exI[of _ ?r]) (intro conjI res 1 2 3 4 5)
  qed
  show ?thesis by (rule exI[of _ d]) (rule conjI[OF reach main])
qed

theorem corrections_contract_witness:
  "\<exists>d. insertAll asciiLower newWordDictionary scenarioA = Inr d \<and> (0::nat) < 2 \<and>
        (\<forall>a b. codeUnitCompare a b \<le> 0 \<or> codeUnitCompare b a \<le> 0) \<and>
        getSpellingCorrections asciiLower codeUnitCompare d (str ''APLE'') 2 2 =
          Inr [str ''apple'', str ''app''] \<and>
        asciiLower (str ''APLE'') \<notin> set [str ''apple'', str ''app''] \<and>
        (\<exists>k. editDistance (asciiLower (str ''APLE'')) (str ''app'') = Inr k \<and> 0 < k \<and> k \<le> 2)"
proof -
  let ?d = "dictionaryOf asciiLower scenarioA"
  have d: "insertAll asciiLower newWordDictionary scenarioA = Inr ?d"
    by (rule insertAll_dictionaryOf)
  have total: "\<forall>a b. codeUnitCompare a b \<le> 0 \<or> codeUnitCompare b a \<le> 0"
    by (simp add: codeUnitCompare_total)
  have trans: "\<forall>a b c. codeUnitCompare a b \<le> 0 \<and> codeUnitCompare b c \<le> 0 \<longrightarrow> codeUnitCompare a c \<le> 0"
    using codeUnitCompare_trans by blast
  have r: "getSpellingCorrections asciiLower codeUnitCompare ?d (str ''APLE'') 2 2 =
          Inr [str ''apple'', str ''app'']"
    unfolding scenarioA_def by code_simp
  have pos: "(0::nat) < 2" by simp
  from reachable_exE[OF corrections_contract[where lc = asciiLower and ops = scenarioA
        and cmp = codeUnitCompare and q = "str ''APLE''" and maxD = 2 and maxS = 2, OF pos total trans]] r
  have "asciiLower (str ''APLE'') \<notin> set [str ''apple'', str ''app'']"
    "\<exists>k. editDistance (asciiLower (str ''APLE'')) (str ''app'') = Inr k \<and> 0 < k \<and> k \<le> 2"
    by auto
  then show ?thesis using d r pos total by blast
qed

text \<open>
  Scenario B on the code: with \<open>maxDistance = 2\<close> the words \<open>app\<close> and \<open>apply\<close>, both at
  distance 2 from \<open>aple\<close>, are returned too, so the result is not \<open>["apple"]\<close>.
\<close>

theorem corrections_scenarioB_counterexample:
  "getSpellingCorrections asciiLower codeUnitCompare (dictionaryOf asciiLower scenarioA)
     (str ''aple'') 2 5 \<noteq> Inr [str ''apple'']"
proof -
  have "getSpellingCorrections asciiLower codeUnitCompare (dictionaryOf asciiLower scenarioA)
     (str ''aple'') 2 5 = Inr [str ''apple'', str ''app'', str ''apply'']"
    unfolding scenarioA_def by code_simp
  then show ?thesis by simp
qed

text \<open>
  Claim C5, as the code has it. After inserting \<open>("apple", "a fruit")\<close>,
  \<open>("apply", "to request")\<close> and \<open>("app", "a program")\<close> into a fresh dictionary,
  \<open>getSpellingCorrections("aple", 2, 5)\<close> returns \<open>["apple", "app", "apply"]\<close>: \<open>apple\<close>, at
  distance 1, comes first, ahead of the two words at distance 2, which follow in
  alphabetical order.
\<close>

theorem corrections_scenarioB:
  "getSpellingCorrections asciiLower codeUnitCompare (dictionaryOf asciiLower scenarioA)
     (str ''aple'') 2 5 = Inr [str ''apple'', str ''app'', str ''apply''] \<and>
   editDistance (str ''aple'') (str ''apple'') = Inr 1 \<and>
   editDistance (str ''aple'') (str ''app'') = Inr 2 \<and>
   editDistance (str ''aple'') (str ''apply'') = Inr 2"
proof -
  have 1: "getSpellingCorrections asciiLower codeUnitCompare (dictionaryOf asciiLower scenarioA)
     (str ''aple'') 2 5 = Inr [str ''apple'', str ''app'', str ''apply'']"
    unfolding scenarioA_def by code_simp
  have 2: "editDistance (str ''aple'') (str ''apple'') = Inr 1" by code_simp
  have 3: "editDistance (str ''aple'') (str ''app'') = Inr 2" by code_simp
  have 4: "editDistance (str ''aple'') (str ''apply'') = Inr 2" by code_simp
  show ?thesis using 1 2 3 4 by simp
qed

text \<open>
  A state that one \<open>insertWord\<close> call reaches, with a word of 20000 letters \<open>z\<close>, and a call
  stack with room for 20000 nested activations of \<open>#dfs\<close>: \<open>getAutoSuggestions\<close> throws.
\<close>

theorem operations_throw_counterexample:
  "insertAll asciiLower newWordDictionary [(replicate 20000 0x7A, [])] =
     Inr (dictionaryOf asciiLower [(replicate 20000 0x7A, [])]) \<and>
   getAutoSuggestionsE 20000 asciiLower
     (dictionaryOf asciiLower [(replicate 20000 0x7A, [])]) [] 5 = Inl RangeError"
proof (rule conjI)
  show "insertAll asciiLower newWordDictionary [(replicate 20000 0x7A, [])] =
     Inr (dictionaryOf asciiLower [(replicate 20000 0x7A, [])])"
    by (rule insertAll_dictionaryOf)
  show "getAutoSuggestionsE 20000 asciiLower
     (dictionaryOf asciiLower [(replicate 20000 0x7A, [])]) [] 5 = Inl RangeError"
    by (rule asciiLower_long_word) (simp_all add: isHighSurrogate_def)
qed

text \<open>
  Claim C7, as the code has it. From the fresh dictionary every sequence of \<open>insertWord\<close>
  calls returns normally, and so does one more call, on any strings, the empty string
  included; in its update branch the walk finds a child at every character of a word of
  \<open>wordsSet\<close>. On every state so reached \<open>searchWord\<close> returns normally (\<open>get\<close> never gives
  \<open>undefined\<close> after \<open>has\<close>), \<open>editDistance\<close> returns normally on all strings, with every
  table and string access in range, and so does \<open>getSpellingCorrections\<close>.
  \<open>getAutoSuggestions\<close> throws nothing but the \<open>RangeError\<close> of a call stack that the
  recursion of \<open>#dfs\<close> has filled, and it returns normally whenever the call stack has
  room for more nested activations than the longest stored word has characters.
\<close>

theorem operations_never_throw:
  "\<exists>d. insertAll lc newWordDictionary ops = Inr d \<and>
        (\<exists>d'. insertWord lc d w defn = Inr d') \<and>
        (lc w \<in> wordsSet d \<longrightarrow>
           (\<exists>t. updateDefinition (codePoints (lc w)) defn (root d) = Inr t)) \<and>
        searchWordE lc d q = Inr (searchWord lc d q) \<and>
        (\<exists>k. editDistance a b = Inr k) \<and>
        (\<exists>r. getSpellingCorrections lc cmp d q maxD maxS = Inr r) \<and>
        (getAutoSuggestionsE stack lc d p n = Inr (getAutoSuggestions lc d p n) \<or>
         getAutoSuggestionsE stack lc d p n = Inl RangeError) \<and>
        (0 < stack \<and> (\<forall>v \<in> wordsSet d. length (codePoints v) < stack) \<longrightarrow>
           getAutoSuggestionsE stack lc d p n = Inr (getAutoSuggestions lc d p n))"
proof -
  let ?d = "dictionaryOf lc ops"
  have d: "insertAll lc newWordDictionary ops = Inr ?d" by (rule insertAll_dictionaryOf)
  note inv = reachable_inv[OF d]
  have 1: "\<exists>d'. insertWord lc ?d w defn = Inr d'"
    using insertWord_step[OF inv(1), of lc w defn] by blast
  have 2: "lc w \<in> wordsSet ?d \<longrightarrow>
      (\<exists>t. updateDefinition (codePoints (lc w)) defn (root ?d) = Inr t)"
  proof
    assume "lc w \<in> wordsSet ?d"
    then have "found (searchFrom (codePoints (lc w)) (root ?d))"
      using member_iff_terminal[OF inv(1), of "lc w"] by simp
    from updateDefinition_found[OF this, of defn]
    show "\<exists>t. updateDefinition (codePoints (lc w)) defn (root ?d) = Inr t" by blast
  qed
  have 3: "searchWordE lc ?d q = Inr (searchWord lc ?d q)"
    by (rule searchWordE_searchWord)
  have 4: "\<exists>k. editDistance a b = Inr k" by (simp add: editDistance_lev)
  have 5: "\<exists>r. getSpellingCorrections lc cmp ?d q maxD maxS = Inr r"
    by (rule getSpellingCorrections_returns)
  have 6: "getAutoSuggestionsE stack lc ?d p n = Inr (getAutoSuggestions lc ?d p n) \<or>
         getAutoSuggestionsE stack lc ?d p n = Inl RangeError"
    by (rule getAutoSuggestionsE_cases)
  have 7: "0 < stack \<and> (\<forall>v \<in> wordsSet ?d. length (codePoints v) < stack) \<longrightarrow>
           getAutoSuggestionsE stack lc ?d p n = Inr (getAutoSuggestions lc ?d p n)"
    using getAutoSuggestionsE_returns[OF inv(1), of stack lc p n] by blast
  show ?thesis
    by (rule exI[of _ ?d]) (intro conjI d 1 2 3 4 5 6 7)
qed

theorem operations_never_throw_witness:
  "\<exists>d. insertAll asciiLower newWordDictionary [(str ''cat'', [])] = Inr d \<and>
        asciiLower (str ''CAT'') \<in> wordsSet d \<and>
        (\<exists>t. updateDefinition (codePoints (asciiLower (str ''CAT''))) (str ''a pet'') (root d) = Inr t) \<and>
        (\<exists>d'. insertWord asciiLower d (str ''CAT'') (str ''a pet'') = Inr d') \<and>
        (\<exists>r. searchWordE asciiLower d [] = Inr r) \<and>
        (\<exists>k. editDistance (str ''cat'') ([] :: jsstring) = Inr k) \<and>
        (\<exists>r. getSpellingCorrections asciiLower codeUnitCompare d [] 2 5 = Inr r) \<and>
        (0::nat) < 4 \<and> length (codePoints (str ''cat'')) < 4 \<and>
        getAutoSuggestionsE 4 asciiLower d (str ''c'') 5 = Inr [str ''cat'']"
proof -
  let ?d = "dictionaryOf asciiLower [(str ''cat'', [])]"
  note t = reachable_exE[OF operations_never_throw[where lc = asciiLower
        and ops = "[(str ''cat'', [])]" and w = "str ''CAT''" and defn = "str ''a pet''"
        and a = "str ''cat''" and b = "[] :: jsstring" and cmp = codeUnitCompare and q = "[]"
        and maxD = 2 and maxS = 5 and stack = 4 and p = "str ''c''" and n = 5]]
  have d: "insertAll asciiLower newWordDictionary [(str ''cat'', [])] = Inr ?d"
    by (rule insertAll_dictionaryOf)
  have m: "asciiLower (str ''CAT'') \<in> wordsSet ?d" by code_simp
  have ws: "wordsSet ?d = {str ''cat''}"
    using reachable_inv(4)[OF d] by (auto simp: asciiLower_def str_def)
  have short: "\<forall>v \<in> wordsSet ?d. length (codePoints v) < 4"
    unfolding ws by (simp add: str_def isHighSurrogate_def)
  have g: "getAutoSuggestions asciiLower ?d (str ''c'') 5 = [str ''cat'']" by code_simp
  have 1: "\<exists>t. updateDefinition (codePoints (asciiLower (str ''CAT''))) (str ''a pet'') (root ?d) = Inr t"
    using t m by blast
  have 2: "\<exists>d'. insertWord asciiLower ?d (str ''CAT'') (str ''a pet'') = Inr d'"
    using t by blast
  have 3: "\<exists>r. searchWordE asciiLower ?d [] = Inr r" using t by blast
  have 4: "\<exists>k. editDistance (str ''cat'') ([] :: jsstring) = Inr k" using t by blast
  have 5: "\<exists>r. getSpellingCorrections asciiLower codeUnitCompare ?d [] 2 5 = Inr r"
    using t by blast
  have 6: "(0::nat) < 4" "length (codePoints (str ''cat'')) < 4"
    by (simp_all add: str_def isHighSurrogate_def)
  have 7: "getAutoSuggestionsE 4 asciiLower ?d (str ''c'') 5 = Inr [str ''cat'']"
    using t short g by simp
  show ?thesis
    by (rule exI[of _ ?d]) (intro conjI d m 1 2 3 4 5 6 7)
qed



text \<open>
  Claim C8. For all strings \<open>a\<close> and \<open>b\<close> (sequences of code units), \<open>editDistance(a, a)\<close>
  is 0, \<open>editDistance(a, b)\<close> equals \<open>editDistance(b, a)\<close>, and \<open>editDistance("", b)\<close> is the
  length of \<open>b\<close>; each call returns normally.
\<close>

theorem editDistance_properties:
  "editDistance a a = Inr 0 \<and> editDistance a b = editDistance b a \<and>
   editDistance [] b = Inr (length b)"
  by (simp add: editDistance_lev lev_same lev_sym[of a b])

end
